theory Spec2Isabelle
  imports Main "HOL-Library.Multiset" "HOL-Library.Sublist"
begin

section \<open>Objects, errors and outcomes\<close>

text \<open>
  The IR is a graph of Python objects. An object is identified by its identity
  (\<open>obj\<close>); the mutable state of the contract objects lives in a heap that maps an
  identity to the fields of the \<open>ContractDefinition\<close> found there. A Python reference
  cannot dangle, so the heap is a total function.

  An exception is a value. A method that has raised leaves behind the state it had
  built so far, so the outcome of a stateful method is either \<open>Inl (e, s)\<close> (raised
  \<open>e\<close>, the state being \<open>s\<close> at that moment) or \<open>Inr r\<close> (returned normally).
\<close>

type_synonym obj = nat
type_synonym AstNodeId = int
type_synonym path = string
type_synonym cu_hash = string
type_synonym bytes = string

datatype error =
    TypeError
  | AssertionError
  | KeyError
  | AttributeError
  | IndexError
  | DanglingReference

subsection \<open>Owned children\<close>

text \<open>
  The classes of the children a contract or a switch owns (\<open>EnumDefinition\<close>,
  \<open>FunctionDefinition\<close>, \<open>Case\<close>, ...) are not part of the two modules embedded here.
  A child is the tree of the objects it owns: its own identity and its owned
  children, in order.
\<close>

datatype ir_node = IrNode obj "ir_node list"

datatype ContractKind = CONTRACT | INTERFACE | LIBRARY

text \<open>\<open>Optional[Union[StructuredDocumentation, str]]\<close>\<close>

datatype documentation =
    NoDocumentation
  | StructuredDocumentation ir_node
  | DocumentationStr string

text \<open>
  An \<open>InheritanceSpecifier\<close> is a node with its own owned subtree; its \<open>base_name\<close>
  holds the AST id of the declaration it refers to.
\<close>

record InheritanceSpecifier =
  specifier_node :: ir_node
  referenced_declaration_id :: AstNodeId

subsection \<open>The fields of a ContractDefinition\<close>

text \<open>
  \<open>self_x\<close> is the attribute \<open>self._x\<close> set by the base classes, \<open>self__x\<close> the private
  attribute \<open>self.__x\<close> of \<open>ContractDefinition\<close>; \<open>self_file\<close> and \<open>byte_location\<close> are
  the public attributes \<open>self.file\<close> and \<open>self.byte_location\<close> of the base class.
\<close>

record ContractDefinition =
  self_parent :: obj
  self_name :: string
  self_source :: bytes
  self_cu_hash :: cu_hash
  self_file :: path
  byte_location :: "int \<times> int"
  self__abstract :: bool
  self__base_contracts :: "InheritanceSpecifier list"
  self__kind :: ContractKind
  self__fully_implemented :: "bool option"
  self__linearized_base_contracts :: "AstNodeId list"
  self__documentation :: documentation
  self__enums :: "ir_node list"
  self__errors :: "ir_node list"
  self__events :: "ir_node list"
  self__functions :: "ir_node list"
  self__modifiers :: "ir_node list"
  self__structs :: "ir_node list"
  self__user_defined_value_types :: "ir_node list"
  self__using_for_directives :: "ir_node list"
  self__declared_variables :: "ir_node list"
  self__child_contracts :: "obj set"

type_synonym heap = "obj \<Rightarrow> ContractDefinition"

section \<open>The destroy callback\<close>

text \<open>
  \<^verbatim>\<open>base_contract.__child_contracts.remove(self)\<close>: \<open>set.remove\<close> raises \<open>KeyError\<close> when
  the element is absent.
\<close>

definition set_remove :: "heap \<Rightarrow> obj \<Rightarrow> obj \<Rightarrow> error + heap" where
  "set_remove h base_contract self =
     (if self \<in> self__child_contracts (h base_contract)
      then Inr (h(base_contract := (h base_contract)
                  \<lparr>self__child_contracts := self__child_contracts (h base_contract) - {self}\<rparr>))
      else Inl KeyError)"

text \<open>
  \<^verbatim>\<open>
  def __destroy(self, base_contracts):
      for base_contract in base_contracts:
          base_contract.__child_contracts.remove(self)
  \<close>
\<close>

fun ContractDefinition_destroy :: "heap \<Rightarrow> obj \<Rightarrow> obj list \<Rightarrow> (error \<times> heap) + heap" where
  "ContractDefinition_destroy h self [] = Inr h"
| "ContractDefinition_destroy h self (base_contract # base_contracts) =
     (case set_remove h base_contract self of
        Inl e \<Rightarrow> Inl (e, h)
      | Inr h' \<Rightarrow> ContractDefinition_destroy h' self base_contracts)"

text \<open>The heap in which \<open>self\<close> has been taken out of the set of every contract in \<open>bs\<close>.\<close>

definition without_child :: "heap \<Rightarrow> obj \<Rightarrow> obj set \<Rightarrow> heap" where
  "without_child h self bs =
     (\<lambda>b. if b \<in> bs
          then (h b)\<lparr>self__child_contracts := self__child_contracts (h b) - {self}\<rparr>
          else h b)"

section \<open>The post-process callback and the reference resolver\<close>

subsection \<open>Session state\<close>

text \<open>
  A node registered with the resolver is a \<open>ContractDefinition\<close> or an object of
  another class; \<open>isinstance(contract, ContractDefinition)\<close> tells them apart.
\<close>

datatype node_ref = ContractDefinitionRef obj | OtherNodeRef obj

text \<open>
  The callbacks are closures. \<open>self.__post_process\<close> is a bound method, determined by
  \<open>self\<close>; \<open>partial(self.__destroy, base_contracts)\<close> is determined by \<open>self\<close> and the list
  it captured. The callbacks that other node classes register are outside the embedded
  modules and touch no \<open>ContractDefinition\<close> field, so the queues hold the callbacks of
  contracts only.
\<close>

datatype post_process_callback = ContractDefinition_post_process_of obj

datatype destroy_callback = ContractDefinition_destroy_of obj "obj list"

text \<open>
  Modelled from the spec: the reference resolver (\<open>reference_resolver\<close> is imported by
  the embedded modules, its code is not among them). Its state is the map
  \<open>nodes_by_id\<close> from (compilation unit, numeric id) to the live node, here together
  with the file the node belongs to, the ordered \<open>post_process_queue\<close>, and the
  \<open>destroy_queue\<close> from a file to the ordered list of callbacks to run when that file is
  invalidated. The session also holds the heap of contract objects.
\<close>

record session =
  objects :: heap
  nodes_by_id :: "cu_hash \<times> AstNodeId \<Rightarrow> (path \<times> node_ref) option"
  post_process_queue :: "post_process_callback list"
  destroy_queue :: "path \<Rightarrow> destroy_callback list"

text \<open>
  Modelled from the spec: \<open>resolve(id, unit)\<close> looks up a previously registered node
  and fails with a dangling-reference error if it is absent.
\<close>

definition resolve_node :: "session \<Rightarrow> AstNodeId \<Rightarrow> cu_hash \<Rightarrow> error + node_ref" where
  "resolve_node s node_id cu =
     (case nodes_by_id s (cu, node_id) of
        None \<Rightarrow> Inl DanglingReference
      | Some (f, node) \<Rightarrow> Inr node)"

text \<open>
  Modelled from the spec: \<open>base_contract.base_name.referenced_declaration\<close> is a property
  of a class outside the embedded modules; the post-process callback "resolves the base
  ID to a live \<open>ContractDefinition\<close>", the specifier being in the compilation unit of its
  contract.
\<close>

definition referenced_declaration ::
  "session \<Rightarrow> cu_hash \<Rightarrow> InheritanceSpecifier \<Rightarrow> error + node_ref" where
  "referenced_declaration s cu base_contract =
     resolve_node s (referenced_declaration_id base_contract) cu"

text \<open>
  Modelled from the spec: \<open>register_post_process_callback(fn)\<close> and
  \<open>register_destroy_callback(file, fn)\<close> enqueue \<open>fn\<close> at the end of the queue.
\<close>

definition register_post_process_callback ::
  "session \<Rightarrow> post_process_callback \<Rightarrow> session" where
  "register_post_process_callback s fn =
     s\<lparr>post_process_queue := post_process_queue s @ [fn]\<rparr>"

definition register_destroy_callback ::
  "session \<Rightarrow> path \<Rightarrow> destroy_callback \<Rightarrow> session" where
  "register_destroy_callback s f fn =
     s\<lparr>destroy_queue := (destroy_queue s)(f := destroy_queue s f @ [fn])\<rparr>"

subsection \<open>The callback\<close>

text \<open>\<^verbatim>\<open>contract.__child_contracts.add(self)\<close>\<close>

definition set_add :: "heap \<Rightarrow> obj \<Rightarrow> obj \<Rightarrow> heap" where
  "set_add h contract self =
     h(contract := (h contract)
        \<lparr>self__child_contracts := insert self (self__child_contracts (h contract))\<rparr>)"

text \<open>
  \<^verbatim>\<open>
  def __post_process(self, callback_params):
      base_contracts = []
      for base_contract in self.__base_contracts:
          contract = base_contract.base_name.referenced_declaration
          assert isinstance(contract, ContractDefinition)
          contract.__child_contracts.add(self)
          base_contracts.append(contract)
      self._reference_resolver.register_destroy_callback(
          self.file, partial(self.__destroy, base_contracts))
  \<close>
  The loop walks the list \<open>self.__base_contracts\<close>, which no step of the loop changes;
  \<open>base_contracts\<close> is the accumulator.
\<close>

fun post_process_loop ::
  "session \<Rightarrow> obj \<Rightarrow> InheritanceSpecifier list \<Rightarrow> obj list \<Rightarrow>
     (error \<times> session) + (session \<times> obj list)" where
  "post_process_loop s self [] base_contracts = Inr (s, base_contracts)"
| "post_process_loop s self (base_contract # rest) base_contracts =
     (case referenced_declaration s (self_cu_hash (objects s self)) base_contract of
        Inl e \<Rightarrow> Inl (e, s)
      | Inr (OtherNodeRef other) \<Rightarrow> Inl (AssertionError, s)
      | Inr (ContractDefinitionRef contract) \<Rightarrow>
          post_process_loop (s\<lparr>objects := set_add (objects s) contract self\<rparr>) self rest
            (base_contracts @ [contract]))"

definition ContractDefinition_post_process :: "session \<Rightarrow> obj \<Rightarrow> (error \<times> session) + session" where
  "ContractDefinition_post_process s self =
     (case post_process_loop s self (self__base_contracts (objects s self)) [] of
        Inl r \<Rightarrow> Inl r
      | Inr (s', base_contracts) \<Rightarrow>
          Inr (register_destroy_callback s' (self_file (objects s' self))
                 (ContractDefinition_destroy_of self base_contracts)))"

subsection \<open>Running the queues\<close>

definition run_post_process_callback ::
  "session \<Rightarrow> post_process_callback \<Rightarrow> (error \<times> session) + session" where
  "run_post_process_callback s fn =
     (case fn of ContractDefinition_post_process_of self \<Rightarrow> ContractDefinition_post_process s self)"

definition run_destroy_callback ::
  "session \<Rightarrow> destroy_callback \<Rightarrow> (error \<times> session) + session" where
  "run_destroy_callback s fn =
     (case fn of ContractDefinition_destroy_of self base_contracts \<Rightarrow>
        (case ContractDefinition_destroy (objects s) self base_contracts of
           Inl (e, h) \<Rightarrow> Inl (e, s\<lparr>objects := h\<rparr>)
         | Inr h \<Rightarrow> Inr (s\<lparr>objects := h\<rparr>)))"

text \<open>Callbacks run in registration order; the first one that raises aborts the run.\<close>

fun run_callbacks ::
  "(session \<Rightarrow> 'c \<Rightarrow> (error \<times> session) + session) \<Rightarrow> session \<Rightarrow> 'c list \<Rightarrow>
     (error \<times> session) + session" where
  "run_callbacks run s [] = Inr s"
| "run_callbacks run s (fn # fns) =
     (case run s fn of
        Inl r \<Rightarrow> Inl r
      | Inr s' \<Rightarrow> run_callbacks run s' fns)"

text \<open>
  Modelled from the spec: \<open>run_post_process()\<close> "drains and executes
  \<open>post_process_queue\<close>", once all files are constructed.
\<close>

definition run_post_process :: "session \<Rightarrow> (error \<times> session) + session" where
  "run_post_process s =
     (case run_callbacks run_post_process_callback s (post_process_queue s) of
        Inl r \<Rightarrow> Inl r
      | Inr s' \<Rightarrow> Inr (s'\<lparr>post_process_queue := []\<rparr>))"

text \<open>
  Modelled from the spec: \<open>invalidate(file)\<close> "drains and executes \<open>file\<close>'s destroy-queue
  entries, then discards that file's ID bindings from \<open>nodes_by_id\<close>".
\<close>

definition discard_bindings ::
  "(cu_hash \<times> AstNodeId \<Rightarrow> (path \<times> node_ref) option) \<Rightarrow> path \<Rightarrow>
     (cu_hash \<times> AstNodeId \<Rightarrow> (path \<times> node_ref) option)" where
  "discard_bindings m f =
     (\<lambda>k. case m k of
            None \<Rightarrow> None
          | Some (f', node) \<Rightarrow> if f' = f then None else Some (f', node))"

definition invalidate :: "session \<Rightarrow> path \<Rightarrow> (error \<times> session) + session" where
  "invalidate s f =
     (case run_callbacks run_destroy_callback s (destroy_queue s f) of
        Inl r \<Rightarrow> Inl r
      | Inr s' \<Rightarrow>
          Inr (s'\<lparr>destroy_queue := (destroy_queue s')(f := []),
                  nodes_by_id := discard_bindings (nodes_by_id s') f\<rparr>))"

text \<open>A sequence of file invalidations, stopped by the first one that raises.\<close>

fun invalidate_all :: "session \<Rightarrow> path list \<Rightarrow> (error \<times> session) + session" where
  "invalidate_all s [] = Inr s"
| "invalidate_all s (f # fs) =
     (case invalidate s f of
        Inl r \<Rightarrow> Inl r
      | Inr s' \<Rightarrow> invalidate_all s' fs)"

subsection \<open>Notions used to state the properties\<close>

text \<open>
  The contracts that the inheritance specifiers of \<open>self\<close> resolve to, one entry per
  specifier that resolves to a contract, in the order of the specifiers.
\<close>

definition resolved_contracts ::
  "session \<Rightarrow> cu_hash \<Rightarrow> InheritanceSpecifier list \<Rightarrow> obj list" where
  "resolved_contracts s cu specifiers =
     concat (map (\<lambda>base_contract.
                    case referenced_declaration s cu base_contract of
                      Inr (ContractDefinitionRef contract) \<Rightarrow> [contract]
                    | _ \<Rightarrow> []) specifiers)"

definition resolved_base_contracts :: "session \<Rightarrow> obj \<Rightarrow> obj list" where
  "resolved_base_contracts s self =
     resolved_contracts s (self_cu_hash (objects s self)) (self__base_contracts (objects s self))"

text \<open>
  \<open>C\<close> directly inherits from \<open>B\<close>: one of the inheritance specifiers of \<open>C\<close> resolves
  to \<open>B\<close>.
\<close>

definition directly_inherits :: "session \<Rightarrow> obj \<Rightarrow> obj \<Rightarrow> bool" where
  "directly_inherits s C B \<longleftrightarrow>
     (\<exists>base_contract \<in> set (self__base_contracts (objects s C)).
        referenced_declaration s (self_cu_hash (objects s C)) base_contract =
          Inr (ContractDefinitionRef B))"

text \<open>The heap in which \<open>self\<close> has been put into the set of every contract in \<open>bs\<close>.\<close>

definition with_child :: "heap \<Rightarrow> obj \<Rightarrow> obj set \<Rightarrow> heap" where
  "with_child h self bs =
     (\<lambda>b. if b \<in> bs
          then (h b)\<lparr>self__child_contracts := insert self (self__child_contracts (h b))\<rparr>
          else h b)"

section \<open>Example sessions\<close>

text \<open>
  A contract without bases, members or children; the examples below are variations
  of it.
\<close>

definition plain_contract :: ContractDefinition where
  "plain_contract =
     \<lparr>self_parent = 0, self_name = ''B'', self_source = ''contract B {}'',
      self_cu_hash = ''cu'', self_file = ''B.sol'', byte_location = (0, 13),
      self__abstract = False, self__base_contracts = [], self__kind = CONTRACT,
      self__fully_implemented = Some True, self__linearized_base_contracts = [10],
      self__documentation = NoDocumentation,
      self__enums = [], self__errors = [], self__events = [], self__functions = [],
      self__modifiers = [], self__structs = [], self__user_defined_value_types = [],
      self__using_for_directives = [], self__declared_variables = [],
      self__child_contracts = {}\<rparr>"

definition specifier_to :: "obj \<Rightarrow> AstNodeId \<Rightarrow> InheritanceSpecifier" where
  "specifier_to node_obj node_id =
     \<lparr>specifier_node = IrNode node_obj [], referenced_declaration_id = node_id\<rparr>"

text \<open>
  \<open>B.sol\<close>: \<open>contract B {}\<close> (object 1, id 10). \<open>D.sol\<close>: \<open>contract D {}\<close> (object 2,
  id 20). \<open>E.sol\<close>: \<open>contract E is B, D {}\<close> (object 4, id 40). All constructed, no
  callback run yet.
\<close>

definition example_objects :: heap where
  "example_objects =
     (\<lambda>_. plain_contract)
       (2 := plain_contract\<lparr>self_name := ''D'', self_source := ''contract D {}'',
               self_file := ''D.sol'', self__linearized_base_contracts := [20]\<rparr>,
        4 := plain_contract\<lparr>self_name := ''E'', self_source := ''contract E is B, D {}'',
               self_file := ''E.sol'', byte_location := (0, 21),
               self__base_contracts := [specifier_to 41 10, specifier_to 42 20],
               self__linearized_base_contracts := [40, 20, 10]\<rparr>)"

definition example_session :: session where
  "example_session =
     \<lparr>objects = example_objects,
      nodes_by_id = [(''cu'', 10) \<mapsto> (''B.sol'', ContractDefinitionRef 1),
                     (''cu'', 20) \<mapsto> (''D.sol'', ContractDefinitionRef 2),
                     (''cu'', 40) \<mapsto> (''E.sol'', ContractDefinitionRef 4),
                     (''cu'', 41) \<mapsto> (''E.sol'', OtherNodeRef 41),
                     (''cu'', 42) \<mapsto> (''E.sol'', OtherNodeRef 42)],
      post_process_queue = [ContractDefinition_post_process_of 1,
                            ContractDefinition_post_process_of 2,
                            ContractDefinition_post_process_of 4],
      destroy_queue = (\<lambda>_. [])\<rparr>"

text \<open>
  The same unit with one more file, \<open>C.sol\<close>, whose contract (object 3, id 30) has
  three inheritance specifiers, resolving to \<open>B\<close>, \<open>B\<close> and \<open>D\<close>.
\<close>

definition duplicate_session :: session where
  "duplicate_session =
     example_session
       \<lparr>objects := example_objects
          (3 := plain_contract\<lparr>self_name := ''C'', self_source := ''contract C is B, B, D {}'',
                  self_file := ''C.sol'', byte_location := (0, 24),
                  self__base_contracts :=
                    [specifier_to 31 10, specifier_to 32 10, specifier_to 33 20],
                  self__linearized_base_contracts := [30, 20, 10]\<rparr>),
        nodes_by_id := (nodes_by_id example_session)
          ((''cu'', 30) \<mapsto> (''C.sol'', ContractDefinitionRef 3)),
        post_process_queue := post_process_queue example_session @
          [ContractDefinition_post_process_of 3]\<rparr>"

text \<open>
  The unit of \<open>example_session\<close> where the linearization stored for \<open>E\<close> lists \<open>D\<close> before
  \<open>E\<close> itself.
\<close>

definition reordered_session :: session where
  "reordered_session =
     example_session
       \<lparr>objects := (objects example_session)
          (4 := (objects example_session 4)\<lparr>self__linearized_base_contracts := [20, 40]\<rparr>)\<rparr>"

section \<open>The name-span locator\<close>

subsection \<open>Regular expressions over bytes\<close>

text \<open>
  \<open>_parse_name_location\<close> matches one of three compiled byte patterns against
  \<open>self._source\<close> with \<open>re.match\<close>. The patterns use the start anchor \<open>^\<close>, literals, the
  classes \<open>\s\<close>, \<open>[a-zA-Z$_]\<close> and \<open>[a-zA-Z0-9$_]\<close>, concatenation, an optional group,
  \<open>*\<close> and \<open>+\<close> on a class, and the named group \<open>(?P<name>...)\<close>. \<open>regex\<close> is the syntax of
  that fragment. The unnamed group \<open>(abstract\s)\<close> is never read, so it is plain
  bracketing.
\<close>

datatype regex =
    Eps
  | Bol
  | Lit bytes
  | Class "char \<Rightarrow> bool"
  | Seq regex regex
  | Opt regex
  | Star "char \<Rightarrow> bool"
  | Plus "char \<Rightarrow> bool"
  | Group string regex

definition seq :: "regex list \<Rightarrow> regex" where
  "seq rs = foldr Seq rs Eps"

text \<open>
  The groups of a match: name, start and end; the most recent capture first.
\<close>

type_synonym groups = "(string \<times> nat \<times> nat) list"

text \<open>
  \<open>matches r s (pos, gs)\<close> lists the ways in which \<open>r\<close> matches \<open>s\<close> from position
  \<open>pos\<close>, each as the end position with the groups captured, in the order in which the
  backtracking matcher of \<open>re\<close> tries them: \<open>?\<close>, \<open>*\<close> and \<open>+\<close> are greedy, so the longer
  alternative comes first.
\<close>

fun matches :: "regex \<Rightarrow> bytes \<Rightarrow> nat \<times> groups \<Rightarrow> (nat \<times> groups) list" where
  "matches Eps s (pos, gs) = [(pos, gs)]"
| "matches Bol s (pos, gs) = (if pos = 0 then [(pos, gs)] else [])"
| "matches (Lit w) s (pos, gs) =
     (if take (length w) (drop pos s) = w then [(pos + length w, gs)] else [])"
| "matches (Class p) s (pos, gs) =
     (if pos < length s \<and> p (s ! pos) then [(Suc pos, gs)] else [])"
| "matches (Seq a b) s (pos, gs) = concat (map (matches b s) (matches a s (pos, gs)))"
| "matches (Opt a) s (pos, gs) = matches a s (pos, gs) @ [(pos, gs)]"
| "matches (Star p) s (pos, gs) =
     map (\<lambda>k. (pos + k, gs)) (rev [0..<Suc (length (takeWhile p (drop pos s)))])"
| "matches (Plus p) s (pos, gs) =
     map (\<lambda>k. (pos + k, gs)) (rev [1..<Suc (length (takeWhile p (drop pos s)))])"
| "matches (Group g a) s (pos, gs) =
     map (\<lambda>(e, gs'). (e, (g, pos, e) # gs')) (matches a s (pos, gs))"

text \<open>\<open>pattern.match(s)\<close>: the first match from position 0, or \<open>None\<close>.\<close>

definition re_match :: "regex \<Rightarrow> bytes \<Rightarrow> (nat \<times> groups) option" where
  "re_match r s = (case matches r s (0, []) of [] \<Rightarrow> None | m # _ \<Rightarrow> Some m)"

text \<open>
  \<open>match.start(g)\<close> and \<open>match.end(g)\<close>; both are \<open>-1\<close> for a group that took no part in
  the match.
\<close>

definition match_start :: "nat \<times> groups \<Rightarrow> string \<Rightarrow> int" where
  "match_start m g = (case map_of (snd m) g of None \<Rightarrow> - 1 | Some (b, e) \<Rightarrow> int b)"

definition match_end :: "nat \<times> groups \<Rightarrow> string \<Rightarrow> int" where
  "match_end m g = (case map_of (snd m) g of None \<Rightarrow> - 1 | Some (b, e) \<Rightarrow> int e)"

subsection \<open>The three patterns\<close>

definition in_range :: "char \<Rightarrow> char \<Rightarrow> char \<Rightarrow> bool" where
  "in_range lo hi c \<longleftrightarrow> (of_char lo :: nat) \<le> of_char c \<and> (of_char c :: nat) \<le> of_char hi"

text \<open>
  \<open>\s\<close> in a bytes pattern is the ASCII white space \<open>[ \t\n\r\f\v]\<close>.
\<close>

definition whitespace_char :: "char \<Rightarrow> bool" where
  "whitespace_char c \<longleftrightarrow>
     c = CHR '' '' \<or> c = CHR 0x09 \<or> c = CHR 0x0A \<or> c = CHR 0x0D \<or> c = CHR 0x0C \<or> c = CHR 0x0B"

text \<open>\<open>[a-zA-Z$_]\<close> and \<open>[a-zA-Z0-9$_]\<close>\<close>

definition identifier_start :: "char \<Rightarrow> bool" where
  "identifier_start c \<longleftrightarrow>
     in_range CHR ''a'' CHR ''z'' c \<or> in_range CHR ''A'' CHR ''Z'' c \<or> c = CHR ''$'' \<or> c = CHR ''_''"

definition identifier_char :: "char \<Rightarrow> bool" where
  "identifier_char c \<longleftrightarrow>
     in_range CHR ''a'' CHR ''z'' c \<or> in_range CHR ''A'' CHR ''Z'' c \<or>
     in_range CHR ''0'' CHR ''9'' c \<or> c = CHR ''$'' \<or> c = CHR ''_''"

text \<open>\<^verbatim>\<open>IDENTIFIER = r"[a-zA-Z$_][a-zA-Z0-9$_]*"\<close>\<close>

definition IDENTIFIER :: regex where
  "IDENTIFIER = Seq (Class identifier_start) (Star identifier_char)"

text \<open>\<^verbatim>\<open>r"^\s*(abstract\s)?\s*contract\s+(?P<name>{identifier})"\<close>\<close>

definition CONTRACT_RE :: regex where
  "CONTRACT_RE =
     seq [Bol, Star whitespace_char,
          Opt (Seq (Lit ''abstract'') (Class whitespace_char)),
          Star whitespace_char, Lit ''contract'', Plus whitespace_char,
          Group ''name'' IDENTIFIER]"

text \<open>\<^verbatim>\<open>r"^\s*interface\s+(?P<name>{identifier})"\<close>\<close>

definition INTERFACE_RE :: regex where
  "INTERFACE_RE =
     seq [Bol, Star whitespace_char, Lit ''interface'', Plus whitespace_char,
          Group ''name'' IDENTIFIER]"

text \<open>\<^verbatim>\<open>r"^\s*library\s+(?P<name>{identifier})"\<close>\<close>

definition LIBRARY_RE :: regex where
  "LIBRARY_RE =
     seq [Bol, Star whitespace_char, Lit ''library'', Plus whitespace_char,
          Group ''name'' IDENTIFIER]"

subsection \<open>The locator\<close>

text \<open>
  \<^verbatim>\<open>
  if self.kind == ContractKind.CONTRACT:
      match = CONTRACT_RE.match(self._source)
  elif self.kind == ContractKind.INTERFACE:
      match = INTERFACE_RE.match(self._source)
  elif self.kind == ContractKind.LIBRARY:
      match = LIBRARY_RE.match(self._source)
  else:
      raise ValueError(f"Unknown contract kind: {self.kind}")
  assert match
  return self.byte_location[0] + match.start("name"), self.byte_location[0] + match.end("name")
  \<close>
  \<open>ContractKind\<close> has the three members tested, so the \<open>else\<close> branch cannot be taken.
\<close>

definition kind :: "ContractDefinition \<Rightarrow> ContractKind" where
  "kind self = self__kind self"

definition name_pattern :: "ContractKind \<Rightarrow> regex" where
  "name_pattern k = (case k of CONTRACT \<Rightarrow> CONTRACT_RE | INTERFACE \<Rightarrow> INTERFACE_RE | LIBRARY \<Rightarrow> LIBRARY_RE)"

definition parse_name_location :: "ContractDefinition \<Rightarrow> error + (int \<times> int)" where
  "parse_name_location self =
     (case re_match (name_pattern (kind self)) (self_source self) of
        None \<Rightarrow> Inl AssertionError
      | Some m \<Rightarrow>
          Inr (fst (byte_location self) + match_start m ''name'',
               fst (byte_location self) + match_end m ''name''))"

subsection \<open>The leading pattern, in words\<close>

text \<open>
  The fixed leading pattern of a kind as the specification words it: optional white
  space, for contracts optionally \<open>abstract\<close> (followed by white space), the keyword of
  the kind, white space, then an identifier. Whatever follows the identifier is free.
\<close>

definition keyword :: "ContractKind \<Rightarrow> bytes" where
  "keyword k = (case k of CONTRACT \<Rightarrow> ''contract'' | INTERFACE \<Rightarrow> ''interface'' | LIBRARY \<Rightarrow> ''library'')"

definition is_identifier :: "bytes \<Rightarrow> bool" where
  "is_identifier w =
     (case w of [] \<Rightarrow> False | c # cs \<Rightarrow> identifier_start c \<and> list_all identifier_char cs)"

definition abstract_prefix :: "ContractKind \<Rightarrow> bytes \<Rightarrow> bool" where
  "abstract_prefix k pre \<longleftrightarrow>
     pre = [] \<or>
     k = CONTRACT \<and> (\<exists>w ws. pre = ''abstract'' @ w # ws \<and> whitespace_char w \<and> list_all whitespace_char ws)"

definition leading_pattern :: "ContractKind \<Rightarrow> bytes \<Rightarrow> bool" where
  "leading_pattern k s \<longleftrightarrow>
     (\<exists>ws1 pre ws2 name rest.
        s = ws1 @ pre @ keyword k @ ws2 @ name @ rest \<and>
        list_all whitespace_char ws1 \<and> abstract_prefix k pre \<and>
        ws2 \<noteq> [] \<and> list_all whitespace_char ws2 \<and> is_identifier name)"

subsection \<open>The words matched by a pattern\<close>

text \<open>\<open>s[i:j]\<close> for \<open>0 \<le> i \<le> j\<close>\<close>

definition slice :: "bytes \<Rightarrow> nat \<Rightarrow> nat \<Rightarrow> bytes" where
  "slice s i j = take (j - i) (drop i s)"

definition conc :: "bytes set \<Rightarrow> bytes set \<Rightarrow> bytes set" where
  "conc A B = {w. \<exists>u v. w = u @ v \<and> u \<in> A \<and> v \<in> B}"

text \<open>
  The words a pattern stands for, position aside: the anchor stands for the empty
  word.
\<close>

primrec lang :: "regex \<Rightarrow> bytes set" where
  "lang Eps = {[]}"
| "lang Bol = {[]}"
| "lang (Lit w) = {w}"
| "lang (Class p) = {w. \<exists>c. w = [c] \<and> p c}"
| "lang (Seq a b) = conc (lang a) (lang b)"
| "lang (Opt a) = insert [] (lang a)"
| "lang (Star p) = {w. list_all p w}"
| "lang (Plus p) = {w. w \<noteq> [] \<and> list_all p w}"
| "lang (Group g a) = lang a"

primrec has_anchor :: "regex \<Rightarrow> bool" where
  "has_anchor Eps = False"
| "has_anchor Bol = True"
| "has_anchor (Lit w) = False"
| "has_anchor (Class p) = False"
| "has_anchor (Seq a b) = (has_anchor a \<or> has_anchor b)"
| "has_anchor (Opt a) = has_anchor a"
| "has_anchor (Star p) = False"
| "has_anchor (Plus p) = False"
| "has_anchor (Group g a) = has_anchor a"

primrec has_group :: "regex \<Rightarrow> bool" where
  "has_group Eps = False"
| "has_group Bol = False"
| "has_group (Lit w) = False"
| "has_group (Class p) = False"
| "has_group (Seq a b) = (has_group a \<or> has_group b)"
| "has_group (Opt a) = has_group a"
| "has_group (Star p) = False"
| "has_group (Plus p) = False"
| "has_group (Group g a) = True"

subsection \<open>The patterns as a prefix followed by the name group\<close>

definition pattern_prefix :: "ContractKind \<Rightarrow> regex list" where
  "pattern_prefix k =
     (case k of
        CONTRACT \<Rightarrow> [Bol, Star whitespace_char,
                      Opt (Seq (Lit ''abstract'') (Class whitespace_char)),
                      Star whitespace_char, Lit ''contract'', Plus whitespace_char]
      | INTERFACE \<Rightarrow> [Bol, Star whitespace_char, Lit ''interface'', Plus whitespace_char]
      | LIBRARY \<Rightarrow> [Bol, Star whitespace_char, Lit ''library'', Plus whitespace_char])"

definition pattern_body :: "ContractKind \<Rightarrow> regex" where
  "pattern_body k = seq (tl (pattern_prefix k) @ [Group ''name'' IDENTIFIER])"

section \<open>Iteration\<close>

text \<open>
  Modelled from the spec: the \<open>__iter__\<close> methods of the child classes are outside the
  embedded modules. \<open>iterate()\<close> of a node produces the node itself followed by every
  descendant, depth first and in pre-order; the sequence is given by the identities of
  the objects yielded.
\<close>

fun ir_iter :: "ir_node \<Rightarrow> obj list" where
  "ir_iter (IrNode self children) = self # concat (map ir_iter children)"

text \<open>
  \<^verbatim>\<open>
  def __iter__(self):
      yield self
      for base_contract in self.__base_contracts:
          yield from base_contract
      if isinstance(self.__documentation, StructuredDocumentation):
          yield from self.__documentation
      for enum in self.__enums:
          yield from enum
      ...
      for declared_variable in self.__declared_variables:
          yield from declared_variable
  \<close>
  A generator is a pure function of the object here: it assigns to no attribute, and a
  fresh call starts from the beginning.
\<close>

definition ContractDefinition_iter :: "obj \<Rightarrow> ContractDefinition \<Rightarrow> obj list" where
  "ContractDefinition_iter self c =
     self #
     concat (map (\<lambda>base_contract. ir_iter (specifier_node base_contract)) (self__base_contracts c)) @
     (case self__documentation c of
        StructuredDocumentation d \<Rightarrow> ir_iter d
      | _ \<Rightarrow> []) @
     concat (map ir_iter (self__enums c)) @
     concat (map ir_iter (self__errors c)) @
     concat (map ir_iter (self__events c)) @
     concat (map ir_iter (self__functions c)) @
     concat (map ir_iter (self__modifiers c)) @
     concat (map ir_iter (self__structs c)) @
     concat (map ir_iter (self__user_defined_value_types c)) @
     concat (map ir_iter (self__using_for_directives c)) @
     concat (map ir_iter (self__declared_variables c))"

subsection \<open>Switch\<close>

text \<open>\<open>Union[FunctionCall, Identifier, Literal]\<close>\<close>

datatype yul_expression = FunctionCall ir_node | Identifier ir_node | Literal ir_node

fun expression_node :: "yul_expression \<Rightarrow> ir_node" where
  "expression_node (FunctionCall n) = n"
| "expression_node (Identifier n) = n"
| "expression_node (Literal n) = n"

text \<open>\<open>this_parent\<close> is \<open>self._parent\<close>, \<open>this__x\<close> the private attribute \<open>self.__x\<close> of \<open>Switch\<close>.\<close>

record Switch =
  this_parent :: obj
  this__cases :: "ir_node list"
  this__expression :: yul_expression

text \<open>
  \<^verbatim>\<open>
  def __iter__(self):
      yield self
      yield from self.__expression
      for case_ in self.__cases:
          yield from case_
  \<close>
\<close>

definition Switch_iter :: "obj \<Rightarrow> Switch \<Rightarrow> obj list" where
  "Switch_iter self sw =
     self # ir_iter (expression_node (this__expression sw)) @
     concat (map ir_iter (this__cases sw))"

subsection \<open>The subtree of a node\<close>

text \<open>
  The nodes of a tree, each as often as it occurs in it; a tree of objects holds every
  object once.
\<close>

fun nodes_of :: "ir_node \<Rightarrow> obj multiset" where
  "nodes_of (IrNode self children) = {#self#} + (\<Sum>child \<leftarrow> children. nodes_of child)"

text \<open>
  The children a contract owns: its inheritance specifiers, its structured
  documentation if it has one, and its members. The children a switch owns: its
  expression and its cases.
\<close>

definition contract_children :: "ContractDefinition \<Rightarrow> ir_node list" where
  "contract_children c =
     map specifier_node (self__base_contracts c) @
     (case self__documentation c of StructuredDocumentation d \<Rightarrow> [d] | _ \<Rightarrow> []) @
     self__enums c @ self__errors c @ self__events c @ self__functions c @
     self__modifiers c @ self__structs c @ self__user_defined_value_types c @
     self__using_for_directives c @ self__declared_variables c"

definition contract_subtree :: "obj \<Rightarrow> ContractDefinition \<Rightarrow> ir_node" where
  "contract_subtree self c = IrNode self (contract_children c)"

definition switch_subtree :: "obj \<Rightarrow> Switch \<Rightarrow> ir_node" where
  "switch_subtree self sw =
     IrNode self (expression_node (this__expression sw) # this__cases sw)"

section \<open>Construction\<close>

subsection \<open>The raw AST\<close>

text \<open>
  The constructors dispatch on the class of a raw node with \<open>isinstance\<close>. A raw node is
  tagged with its class; the last constructor of each type stands for an object of any
  other class. \<open>'r\<close> is the content of a raw node.
\<close>

datatype 'r solc_node =
    SolcEnumDefinition 'r
  | SolcErrorDefinition 'r
  | SolcEventDefinition 'r
  | SolcFunctionDefinition 'r
  | SolcModifierDefinition 'r
  | SolcStructDefinition 'r
  | SolcUserDefinedValueTypeDefinition 'r
  | SolcUsingForDirective 'r
  | SolcVariableDeclaration 'r
  | SolcOtherNode 'r

datatype 'r solc_doc =
    SolcNone
  | SolcStructuredDocumentation 'r
  | SolcStr string
  | SolcOtherDocumentation 'r

record 'r SolcContractDefinition =
  solc_abstract :: bool
  solc_contract_kind :: ContractKind
  solc_fully_implemented :: "bool option"
  solc_linearized_base_contracts :: "AstNodeId list"
  solc_documentation :: "'r solc_doc"
  solc_base_contracts :: "'r list"
  solc_nodes :: "'r solc_node list"

datatype 'r yul_node =
    YulFunctionCall 'r
  | YulIdentifier 'r
  | YulLiteral 'r
  | YulOtherNode 'r

record 'r YulSwitch =
  switch_expression :: "'r yul_node"
  switch_cases :: "'r list"

subsection \<open>The constructors of the children\<close>

text \<open>
  The constructors of the child classes are outside the embedded modules. They are a
  parameter: \<open>new cls r\<close> is the call \<open>cls(init, r, self)\<close>, which returns the child with
  the subtree it owns or raises.
\<close>

datatype ir_class =
    EnumDefinition_class
  | ErrorDefinition_class
  | EventDefinition_class
  | FunctionDefinition_class
  | ModifierDefinition_class
  | StructDefinition_class
  | UserDefinedValueTypeDefinition_class
  | UsingForDirective_class
  | VariableDeclaration_class
  | StructuredDocumentation_class
  | Case_class
  | FunctionCall_class
  | Identifier_class
  | Literal_class

text \<open>A loop or comprehension that constructs one child per raw node and appends it.\<close>

fun new_all :: "('r \<Rightarrow> error + 'a) \<Rightarrow> 'r list \<Rightarrow> 'a list \<Rightarrow> error + 'a list" where
  "new_all f [] acc = Inr acc"
| "new_all f (r # rs) acc =
     (case f r of
        Inl e \<Rightarrow> Inl e
      | Inr x \<Rightarrow> new_all f rs (acc @ [x]))"

subsection \<open>ContractDefinition.__init__\<close>

text \<open>
  \<^verbatim>\<open>
  if contract.documentation is None:
      self.__documentation = None
  elif isinstance(contract.documentation, SolcStructuredDocumentation):
      self.__documentation = StructuredDocumentation(init, contract.documentation, self)
  elif isinstance(contract.documentation, str):
      self.__documentation = contract.documentation
  else:
      raise TypeError(...)
  \<close>
\<close>

definition init_documentation ::
  "(ir_class \<Rightarrow> 'r \<Rightarrow> error + ir_node) \<Rightarrow> 'r solc_doc \<Rightarrow> error + documentation" where
  "init_documentation new doc =
     (case doc of
        SolcNone \<Rightarrow> Inr NoDocumentation
      | SolcStructuredDocumentation r \<Rightarrow>
          (case new StructuredDocumentation_class r of
             Inl e \<Rightarrow> Inl e
           | Inr n \<Rightarrow> Inr (StructuredDocumentation n))
      | SolcStr s \<Rightarrow> Inr (DocumentationStr s)
      | SolcOtherDocumentation r \<Rightarrow> Inl TypeError)"

text \<open>
  \<^verbatim>\<open>
  for node in contract.nodes:
      if isinstance(node, SolcEnumDefinition):
          self.__enums.append(EnumDefinition(init, node, self))
      elif isinstance(node, SolcErrorDefinition):
          self.__errors.append(ErrorDefinition(init, node, self))
      ...
      elif isinstance(node, SolcVariableDeclaration):
          self.__declared_variables.append(VariableDeclaration(init, node, self))
  \<close>
  The chain has no \<open>else\<close>: a node of another class falls through and the loop goes on.
\<close>

fun init_nodes ::
  "(ir_class \<Rightarrow> 'r \<Rightarrow> error + ir_node) \<Rightarrow> 'r solc_node list \<Rightarrow> ContractDefinition \<Rightarrow>
     error + ContractDefinition" where
  "init_nodes new [] c = Inr c"
| "init_nodes new (node # nodes) c =
     (case node of
        SolcEnumDefinition r \<Rightarrow>
          (case new EnumDefinition_class r of Inl e \<Rightarrow> Inl e
           | Inr n \<Rightarrow> init_nodes new nodes (c\<lparr>self__enums := self__enums c @ [n]\<rparr>))
      | SolcErrorDefinition r \<Rightarrow>
          (case new ErrorDefinition_class r of Inl e \<Rightarrow> Inl e
           | Inr n \<Rightarrow> init_nodes new nodes (c\<lparr>self__errors := self__errors c @ [n]\<rparr>))
      | SolcEventDefinition r \<Rightarrow>
          (case new EventDefinition_class r of Inl e \<Rightarrow> Inl e
           | Inr n \<Rightarrow> init_nodes new nodes (c\<lparr>self__events := self__events c @ [n]\<rparr>))
      | SolcFunctionDefinition r \<Rightarrow>
          (case new FunctionDefinition_class r of Inl e \<Rightarrow> Inl e
           | Inr n \<Rightarrow> init_nodes new nodes (c\<lparr>self__functions := self__functions c @ [n]\<rparr>))
      | SolcModifierDefinition r \<Rightarrow>
          (case new ModifierDefinition_class r of Inl e \<Rightarrow> Inl e
           | Inr n \<Rightarrow> init_nodes new nodes (c\<lparr>self__modifiers := self__modifiers c @ [n]\<rparr>))
      | SolcStructDefinition r \<Rightarrow>
          (case new StructDefinition_class r of Inl e \<Rightarrow> Inl e
           | Inr n \<Rightarrow> init_nodes new nodes (c\<lparr>self__structs := self__structs c @ [n]\<rparr>))
      | SolcUserDefinedValueTypeDefinition r \<Rightarrow>
          (case new UserDefinedValueTypeDefinition_class r of Inl e \<Rightarrow> Inl e
           | Inr n \<Rightarrow> init_nodes new nodes
               (c\<lparr>self__user_defined_value_types := self__user_defined_value_types c @ [n]\<rparr>))
      | SolcUsingForDirective r \<Rightarrow>
          (case new UsingForDirective_class r of Inl e \<Rightarrow> Inl e
           | Inr n \<Rightarrow> init_nodes new nodes
               (c\<lparr>self__using_for_directives := self__using_for_directives c @ [n]\<rparr>))
      | SolcVariableDeclaration r \<Rightarrow>
          (case new VariableDeclaration_class r of Inl e \<Rightarrow> Inl e
           | Inr n \<Rightarrow> init_nodes new nodes
               (c\<lparr>self__declared_variables := self__declared_variables c @ [n]\<rparr>))
      | SolcOtherNode r \<Rightarrow> init_nodes new nodes c)"

text \<open>
  The fields that \<open>__init__\<close> sets, in its order. \<open>this\<close> is the object as
  \<open>super().__init__(init, contract, parent)\<close> has left it; \<open>new_specifier\<close> is the
  constructor \<open>InheritanceSpecifier(init, base_contract, self)\<close>.
\<close>

definition ContractDefinition_init_fields ::
  "(ir_class \<Rightarrow> 'r \<Rightarrow> error + ir_node) \<Rightarrow> ('r \<Rightarrow> error + InheritanceSpecifier) \<Rightarrow>
     ContractDefinition \<Rightarrow> 'r SolcContractDefinition \<Rightarrow> error + ContractDefinition" where
  "ContractDefinition_init_fields new new_specifier this contract =
     (case init_documentation new (solc_documentation contract) of
        Inl e \<Rightarrow> Inl e
      | Inr doc \<Rightarrow>
          (case new_all new_specifier (solc_base_contracts contract) [] of
             Inl e \<Rightarrow> Inl e
           | Inr base_contracts \<Rightarrow>
               init_nodes new (solc_nodes contract)
                 (this\<lparr>self__abstract := solc_abstract contract,
                       self__kind := solc_contract_kind contract,
                       self__fully_implemented := solc_fully_implemented contract,
                       self__linearized_base_contracts := solc_linearized_base_contracts contract,
                       self__documentation := doc,
                       self__base_contracts := base_contracts,
                       self__child_contracts := {},
                       self__enums := [], self__errors := [], self__events := [],
                       self__functions := [], self__modifiers := [], self__structs := [],
                       self__user_defined_value_types := [],
                       self__using_for_directives := [],
                       self__declared_variables := []\<rparr>)))"

text \<open>
  The whole constructor: the new object \<open>self\<close> enters the heap and its post-process
  callback is registered. A constructor that raises leaves no object behind.
\<close>

definition ContractDefinition_init ::
  "(ir_class \<Rightarrow> 'r \<Rightarrow> error + ir_node) \<Rightarrow> ('r \<Rightarrow> error + InheritanceSpecifier) \<Rightarrow>
     session \<Rightarrow> obj \<Rightarrow> ContractDefinition \<Rightarrow> 'r SolcContractDefinition \<Rightarrow> error + session" where
  "ContractDefinition_init new new_specifier s self this contract =
     (case ContractDefinition_init_fields new new_specifier this contract of
        Inl e \<Rightarrow> Inl e
      | Inr c \<Rightarrow>
          Inr (register_post_process_callback (s\<lparr>objects := (objects s)(self := c)\<rparr>)
                 (ContractDefinition_post_process_of self)))"

subsection \<open>Switch.__init__\<close>

text \<open>
  \<^verbatim>\<open>
  if isinstance(switch.expression, YulFunctionCall):
      self.__expression = FunctionCall(init, switch.expression, self)
  elif isinstance(switch.expression, YulIdentifier):
      self.__expression = Identifier(init, switch.expression, self)
  elif isinstance(switch.expression, YulLiteral):
      self.__expression = Literal(init, switch.expression, self)
  else:
      assert False, f"Unexpected type: {type(switch.expression)}"
  self.__cases = [Case(init, case, self) for case in switch.cases]
  \<close>
\<close>

definition init_expression ::
  "(ir_class \<Rightarrow> 'r \<Rightarrow> error + ir_node) \<Rightarrow> 'r yul_node \<Rightarrow> error + yul_expression" where
  "init_expression new expression =
     (case expression of
        YulFunctionCall r \<Rightarrow>
          (case new FunctionCall_class r of Inl e \<Rightarrow> Inl e | Inr n \<Rightarrow> Inr (FunctionCall n))
      | YulIdentifier r \<Rightarrow>
          (case new Identifier_class r of Inl e \<Rightarrow> Inl e | Inr n \<Rightarrow> Inr (Identifier n))
      | YulLiteral r \<Rightarrow>
          (case new Literal_class r of Inl e \<Rightarrow> Inl e | Inr n \<Rightarrow> Inr (Literal n))
      | YulOtherNode r \<Rightarrow> Inl AssertionError)"

definition Switch_init ::
  "(ir_class \<Rightarrow> 'r \<Rightarrow> error + ir_node) \<Rightarrow> Switch \<Rightarrow> 'r YulSwitch \<Rightarrow> error + Switch" where
  "Switch_init new this switch =
     (case init_expression new (switch_expression switch) of
        Inl e \<Rightarrow> Inl e
      | Inr expression \<Rightarrow>
          (case new_all (new Case_class) (switch_cases switch) [] of
             Inl e \<Rightarrow> Inl e
           | Inr cases \<Rightarrow> Inr (this\<lparr>this__expression := expression, this__cases := cases\<rparr>)))"

section \<open>The linearized base contracts\<close>

text \<open>
  \<^verbatim>\<open>
  @property
  def linearized_base_contracts(self):
      base_contracts = []
      for base_contract in self.__linearized_base_contracts:
          node = self._reference_resolver.resolve_node(base_contract, self._cu_hash)
          assert isinstance(node, ContractDefinition)
          base_contracts.append(node)
      return tuple(base_contracts)
  \<close>
\<close>

fun linearized_loop ::
  "session \<Rightarrow> cu_hash \<Rightarrow> AstNodeId list \<Rightarrow> obj list \<Rightarrow> error + obj list" where
  "linearized_loop s cu [] base_contracts = Inr base_contracts"
| "linearized_loop s cu (base_contract # rest) base_contracts =
     (case resolve_node s base_contract cu of
        Inl e \<Rightarrow> Inl e
      | Inr (OtherNodeRef other) \<Rightarrow> Inl AssertionError
      | Inr (ContractDefinitionRef node) \<Rightarrow>
          linearized_loop s cu rest (base_contracts @ [node]))"

definition linearized_base_contracts :: "session \<Rightarrow> obj \<Rightarrow> error + obj list" where
  "linearized_base_contracts s self =
     linearized_loop s (self_cu_hash (objects s self))
       (self__linearized_base_contracts (objects s self)) []"

subsection \<open>Example raw nodes\<close>

text \<open>
  A raw contract whose body holds an enum, a node of a class that the constructor does
  not know, and a function; the content of a raw node is a number, and the child
  constructors build a childless node with that number as identity.
\<close>

definition leaf_constructors :: "ir_class \<Rightarrow> nat \<Rightarrow> error + ir_node" where
  "leaf_constructors cls r = Inr (IrNode r [])"

definition raw_contract :: "nat SolcContractDefinition" where
  "raw_contract =
     \<lparr>solc_abstract = False, solc_contract_kind = CONTRACT,
      solc_fully_implemented = Some True, solc_linearized_base_contracts = [10],
      solc_documentation = SolcNone, solc_base_contracts = [],
      solc_nodes = [SolcEnumDefinition 5, SolcOtherNode 6, SolcFunctionDefinition 7]\<rparr>"

subsection \<open>The state apart from the reverse index\<close>

text \<open>Every field of a contract except \<open>__child_contracts\<close>.\<close>

definition static :: "ContractDefinition \<Rightarrow> ContractDefinition" where
  "static c = c\<lparr>self__child_contracts := {}\<rparr>"

text \<open>
  The destroy callbacks that the post-process callbacks of the contracts \<open>cs\<close> register
  for file \<open>f\<close>, in registration order.
\<close>

definition registered_destroy_callbacks :: "session \<Rightarrow> obj list \<Rightarrow> path \<Rightarrow> destroy_callback list" where
  "registered_destroy_callbacks s cs f =
     map (\<lambda>C. ContractDefinition_destroy_of C (resolved_base_contracts s C))
       (filter (\<lambda>C. self_file (objects s C) = f) cs)"

text \<open>
  The state of a session in which the files \<open>F\<close> have been invalidated, relative to the
  session \<open>s\<close> as constructed with the contracts \<open>cs\<close>: the reverse index holds the
  inheriting contracts of the files not in \<open>F\<close>, the destroy queues of the files in \<open>F\<close>
  are drained and the others are as registered.
\<close>

definition invalidated_state :: "session \<Rightarrow> obj list \<Rightarrow> path set \<Rightarrow> session \<Rightarrow> bool" where
  "invalidated_state s cs F s2 \<longleftrightarrow>
     (\<forall>x. static (objects s2 x) = static (objects s x)) \<and>
     (\<forall>b. self__child_contracts (objects s2 b) =
          {C \<in> set cs. directly_inherits s C b \<and> self_file (objects s C) \<notin> F}) \<and>
     (\<forall>f. destroy_queue s2 f = (if f \<in> F then [] else registered_destroy_callbacks s cs f))"

section \<open>The public properties\<close>

text \<open>
  A property reads attributes of \<open>self\<close> and returns a value; none assigns to an
  attribute, so each is a function of the object. \<open>tuple(xs)\<close> and \<open>frozenset(xs)\<close> build a
  new immutable value from the elements of \<open>xs\<close>: a list and a set here. \<open>kind\<close> and
  \<open>linearized_base_contracts\<close> are defined above; \<open>documentation_of\<close> and \<open>functions_of\<close>
  are the properties \<open>documentation\<close> and \<open>functions\<close>.
\<close>

definition parent :: "ContractDefinition \<Rightarrow> obj" where
  "parent self = self_parent self"

definition canonical_name :: "ContractDefinition \<Rightarrow> string" where
  "canonical_name self = self_name self"

definition abstract :: "ContractDefinition \<Rightarrow> bool" where
  "abstract self = self__abstract self"

definition base_contracts :: "ContractDefinition \<Rightarrow> InheritanceSpecifier list" where
  "base_contracts self = self__base_contracts self"

definition child_contracts :: "ContractDefinition \<Rightarrow> obj set" where
  "child_contracts self = self__child_contracts self"

definition fully_implemented :: "ContractDefinition \<Rightarrow> bool option" where
  "fully_implemented self = self__fully_implemented self"

definition documentation_of :: "ContractDefinition \<Rightarrow> documentation" where
  "documentation_of self = self__documentation self"

definition enums :: "ContractDefinition \<Rightarrow> ir_node list" where
  "enums self = self__enums self"

definition errors :: "ContractDefinition \<Rightarrow> ir_node list" where
  "errors self = self__errors self"

definition events :: "ContractDefinition \<Rightarrow> ir_node list" where
  "events self = self__events self"

definition functions_of :: "ContractDefinition \<Rightarrow> ir_node list" where
  "functions_of self = self__functions self"

definition modifiers :: "ContractDefinition \<Rightarrow> ir_node list" where
  "modifiers self = self__modifiers self"

definition structs :: "ContractDefinition \<Rightarrow> ir_node list" where
  "structs self = self__structs self"

definition user_defined_value_types :: "ContractDefinition \<Rightarrow> ir_node list" where
  "user_defined_value_types self = self__user_defined_value_types self"

definition using_for_directives :: "ContractDefinition \<Rightarrow> ir_node list" where
  "using_for_directives self = self__using_for_directives self"

definition declared_variables :: "ContractDefinition \<Rightarrow> ir_node list" where
  "declared_variables self = self__declared_variables self"

text \<open>
  \<^verbatim>\<open>
  @property
  def declarations(self):
      yield from self.enums
      for enum in self.enums:
          yield from enum.values
      yield from self.errors
      ...
      yield from self.declared_variables
  \<close>
  \<open>values\<close> is the property \<open>EnumDefinition.values\<close>, outside the embedded modules.
\<close>

definition declarations :: "(ir_node \<Rightarrow> ir_node list) \<Rightarrow> ContractDefinition \<Rightarrow> ir_node list" where
  "declarations values self =
     enums self @ concat (map values (enums self)) @ errors self @ events self @
     functions_of self @ modifiers self @ structs self @ user_defined_value_types self @
     declared_variables self"

text \<open>\<open>sep.join(xs)\<close>\<close>

fun join :: "string \<Rightarrow> string list \<Rightarrow> string" where
  "join sep [] = []"
| "join sep [x] = x"
| "join sep (x # y # ys) = x @ sep @ join sep (y # ys)"

text \<open>
  \<open>declaration_string\<close>. The string of a kind, \<open>spec.source\<close> of a specifier, \<open>text\<close> of a
  structured documentation and \<open>str.splitlines\<close> are outside the embedded modules and are
  parameters. \<open>lru_cache\<close> keeps the result in a cache of the function, not in the node;
  what the string is built from never changes, so the cached string is the computed one.
\<close>

definition declaration_string ::
  "(ContractKind \<Rightarrow> string) \<Rightarrow> (InheritanceSpecifier \<Rightarrow> string) \<Rightarrow> (ir_node \<Rightarrow> string) \<Rightarrow>
     (string \<Rightarrow> string list) \<Rightarrow> ContractDefinition \<Rightarrow> string" where
  "declaration_string kind_str source_of text_of splitlines self =
     (let ret = (if abstract self then ''abstract '' else '''') @ kind_str (kind self) @ '' '' @
                self_name self;
          ret = ret @ (if length (base_contracts self) > 0
                       then '' is '' @ join '', '' (map source_of (base_contracts self))
                       else '''')
      in case documentation_of self of
           StructuredDocumentation d \<Rightarrow>
             ''/// '' @ join (CHR 0x0A # ''///'') (splitlines (text_of d)) @ [CHR 0x0A] @ ret
         | DocumentationStr str \<Rightarrow>
             ''/// '' @ join (CHR 0x0A # ''///'') (splitlines str) @ [CHR 0x0A] @ ret
         | NoDocumentation \<Rightarrow> ret)"

subsection \<open>Runs of the callbacks\<close>

text \<open>
  After construction the resolver runs callbacks. \<open>after_callback s r\<close> is the session
  that running \<open>r\<close> in \<open>s\<close> leaves, whether the callback returns or raises.
\<close>

datatype callback_run = Run_post_process obj | Run_destroy obj "obj list"

definition after_callback :: "session \<Rightarrow> callback_run \<Rightarrow> session" where
  "after_callback s r =
     (case r of
        Run_post_process self \<Rightarrow>
          (case ContractDefinition_post_process s self of Inl (e, s') \<Rightarrow> s' | Inr s' \<Rightarrow> s')
      | Run_destroy self recorded \<Rightarrow>
          (case run_destroy_callback s (ContractDefinition_destroy_of self recorded) of
             Inl (e, s') \<Rightarrow> s' | Inr s' \<Rightarrow> s'))"

text \<open>What the properties other than \<open>child_contracts\<close> return for a contract.\<close>

definition observed ::
  "(ContractKind \<Rightarrow> string) \<Rightarrow> (InheritanceSpecifier \<Rightarrow> string) \<Rightarrow> (ir_node \<Rightarrow> string) \<Rightarrow>
     (string \<Rightarrow> string list) \<Rightarrow> (ir_node \<Rightarrow> ir_node list) \<Rightarrow> session \<Rightarrow> obj \<Rightarrow>
     (obj \<times> string \<times> string \<times> bool \<times> InheritanceSpecifier list \<times> ContractKind \<times> bool option) \<times>
     (error + obj list) \<times> documentation \<times> ir_node list list \<times> ir_node list \<times>
     (error + int \<times> int) \<times> obj list" where
  "observed kind_str source_of text_of splitlines values s x =
     (let self = objects s x in
      ((parent self, canonical_name self,
        declaration_string kind_str source_of text_of splitlines self,
        abstract self, base_contracts self, kind self, fully_implemented self),
       linearized_base_contracts s x, documentation_of self,
       [enums self, errors self, events self, functions_of self, modifiers self, structs self,
        user_defined_value_types self, using_for_directives self, declared_variables self],
       declarations values self, parse_name_location self, ContractDefinition_iter x self))"

section \<open>Values handed to callers\<close>

text \<open>
  A caller of a property receives a Python value. What matters for the state of a
  contract is whether the value is one of the list or set objects that the contract holds
  in an attribute, which the caller could then change in place, or a value that shares
  nothing mutable with the contract. The attributes of a \<open>ContractDefinition\<close> that hold a
  list or a set:
\<close>

datatype attribute =
    A_base_contracts
  | A_linearized_base_contracts
  | A_enums
  | A_errors
  | A_events
  | A_functions
  | A_modifiers
  | A_structs
  | A_user_defined_value_types
  | A_using_for_directives
  | A_declared_variables
  | A_child_contracts

text \<open>
  \<open>PyContainer x a\<close> is the very list or set object held in attribute \<open>a\<close> of contract
  \<open>x\<close>: what the expression \<open>self.__a\<close> evaluates to when \<open>self\<close> is \<open>x\<close>. \<open>PyNode\<close> is a
  reference to a node object. \<open>PyTuple\<close> and \<open>PyFrozenSet\<close> (of node references) are the
  immutable sequences and sets, \<open>PyNone\<close>, booleans, integers, strings and enum members
  are immutable too, and \<open>PyGenerator\<close> is a generator object with the values it will
  yield.
\<close>

datatype pyvalue =
    PyNone
  | PyBool bool
  | PyInt int
  | PyStr string
  | PyKind ContractKind
  | PyNode obj
  | PyTuple "pyvalue list"
  | PyFrozenSet "obj set"
  | PyGenerator "pyvalue list"
  | PyContainer obj attribute

fun root :: "ir_node \<Rightarrow> obj" where
  "root (IrNode self children) = self"

text \<open>
  The elements of the list held in an attribute of a contract, as values: references to
  the child nodes, and the ids of the precomputed linearization.
\<close>

definition elements :: "ContractDefinition \<Rightarrow> attribute \<Rightarrow> pyvalue list" where
  "elements c a =
     (case a of
        A_base_contracts \<Rightarrow> map (\<lambda>b. PyNode (root (specifier_node b))) (self__base_contracts c)
      | A_linearized_base_contracts \<Rightarrow> map PyInt (self__linearized_base_contracts c)
      | A_enums \<Rightarrow> map (\<lambda>n. PyNode (root n)) (self__enums c)
      | A_errors \<Rightarrow> map (\<lambda>n. PyNode (root n)) (self__errors c)
      | A_events \<Rightarrow> map (\<lambda>n. PyNode (root n)) (self__events c)
      | A_functions \<Rightarrow> map (\<lambda>n. PyNode (root n)) (self__functions c)
      | A_modifiers \<Rightarrow> map (\<lambda>n. PyNode (root n)) (self__modifiers c)
      | A_structs \<Rightarrow> map (\<lambda>n. PyNode (root n)) (self__structs c)
      | A_user_defined_value_types \<Rightarrow>
          map (\<lambda>n. PyNode (root n)) (self__user_defined_value_types c)
      | A_using_for_directives \<Rightarrow> map (\<lambda>n. PyNode (root n)) (self__using_for_directives c)
      | A_declared_variables \<Rightarrow> map (\<lambda>n. PyNode (root n)) (self__declared_variables c)
      | A_child_contracts \<Rightarrow> [])"

text \<open>
  The built-in \<open>tuple(v)\<close>, which the source applies to list objects only: a new tuple of
  the elements of the list. A tuple is returned as it is.
\<close>

definition py_tuple :: "session \<Rightarrow> pyvalue \<Rightarrow> pyvalue" where
  "py_tuple s v = (case v of PyContainer x a \<Rightarrow> PyTuple (elements (objects s x) a) | _ \<Rightarrow> v)"

text \<open>
  The built-in \<open>frozenset(v)\<close>, which the source applies to the set of child contracts
  only: a new frozenset of the elements of the set. A frozenset is returned as it is.
\<close>

definition py_frozenset :: "session \<Rightarrow> pyvalue \<Rightarrow> pyvalue" where
  "py_frozenset s v =
     (case v of
        PyContainer x a \<Rightarrow>
          (if a = A_child_contracts then PyFrozenSet (self__child_contracts (objects s x))
           else PyFrozenSet
                  (set (List.map_filter (\<lambda>e. case e of PyNode n \<Rightarrow> Some n | _ \<Rightarrow> None)
                          (elements (objects s x) a))))
      | _ \<Rightarrow> v)"

subsection \<open>Reading a property\<close>

datatype property =
    P_parent
  | P_canonical_name
  | P_declaration_string
  | P_abstract
  | P_base_contracts
  | P_child_contracts
  | P_kind
  | P_fully_implemented
  | P_linearized_base_contracts
  | P_documentation
  | P_enums
  | P_errors
  | P_events
  | P_functions
  | P_modifiers
  | P_structs
  | P_user_defined_value_types
  | P_using_for_directives
  | P_declared_variables
  | P_declarations

text \<open>
  \<open>read_property \<dots> s x p\<close> is the evaluation of \<open>x.p\<close> in session \<open>s\<close>: the value returned
  or the exception raised, and the session that the evaluation leaves. Each line is the
  body of the property. \<open>return tuple(self.__enums)\<close> is \<open>py_tuple\<close> of the list object
  \<open>PyContainer x A_enums\<close>, and \<open>return frozenset(self.__child_contracts)\<close> is
  \<open>py_frozenset\<close> of the set object; a body \<open>return self.__enums\<close> would be
  \<open>Inr (PyContainer x A_enums)\<close>. \<open>return self.__documentation\<close> hands out what the
  attribute holds: \<open>None\<close>, a string or the documentation node. \<open>linearized_base_contracts\<close>
  makes a tuple of a list that it has built itself from the resolved nodes, and
  \<open>declarations\<close> is a generator function. No body assigns to an attribute or calls a
  method of the resolver other than \<open>resolve_node\<close>, so the session left is \<open>s\<close>.
\<close>

definition read_property ::
  "(ContractKind \<Rightarrow> string) \<Rightarrow> (InheritanceSpecifier \<Rightarrow> string) \<Rightarrow> (ir_node \<Rightarrow> string) \<Rightarrow>
     (string \<Rightarrow> string list) \<Rightarrow> (ir_node \<Rightarrow> ir_node list) \<Rightarrow> session \<Rightarrow> obj \<Rightarrow> property \<Rightarrow>
     (error + pyvalue) \<times> session" where
  "read_property kind_str source_of text_of splitlines enum_values s x p =
     (let self = objects s x in
      case p of
        P_parent \<Rightarrow> (Inr (PyNode (parent self)), s)
      | P_canonical_name \<Rightarrow> (Inr (PyStr (canonical_name self)), s)
      | P_declaration_string \<Rightarrow>
          (Inr (PyStr (declaration_string kind_str source_of text_of splitlines self)), s)
      | P_abstract \<Rightarrow> (Inr (PyBool (abstract self)), s)
      | P_base_contracts \<Rightarrow> (Inr (py_tuple s (PyContainer x A_base_contracts)), s)
      | P_child_contracts \<Rightarrow> (Inr (py_frozenset s (PyContainer x A_child_contracts)), s)
      | P_kind \<Rightarrow> (Inr (PyKind (kind self)), s)
      | P_fully_implemented \<Rightarrow>
          (Inr (case fully_implemented self of None \<Rightarrow> PyNone | Some b \<Rightarrow> PyBool b), s)
      | P_linearized_base_contracts \<Rightarrow>
          (case linearized_base_contracts s x of
             Inl e \<Rightarrow> (Inl e, s)
           | Inr nodes \<Rightarrow> (Inr (PyTuple (map PyNode nodes)), s))
      | P_documentation \<Rightarrow>
          (Inr (case documentation_of self of
                  NoDocumentation \<Rightarrow> PyNone
                | StructuredDocumentation d \<Rightarrow> PyNode (root d)
                | DocumentationStr str \<Rightarrow> PyStr str), s)
      | P_enums \<Rightarrow> (Inr (py_tuple s (PyContainer x A_enums)), s)
      | P_errors \<Rightarrow> (Inr (py_tuple s (PyContainer x A_errors)), s)
      | P_events \<Rightarrow> (Inr (py_tuple s (PyContainer x A_events)), s)
      | P_functions \<Rightarrow> (Inr (py_tuple s (PyContainer x A_functions)), s)
      | P_modifiers \<Rightarrow> (Inr (py_tuple s (PyContainer x A_modifiers)), s)
      | P_structs \<Rightarrow> (Inr (py_tuple s (PyContainer x A_structs)), s)
      | P_user_defined_value_types \<Rightarrow>
          (Inr (py_tuple s (PyContainer x A_user_defined_value_types)), s)
      | P_using_for_directives \<Rightarrow> (Inr (py_tuple s (PyContainer x A_using_for_directives)), s)
      | P_declared_variables \<Rightarrow> (Inr (py_tuple s (PyContainer x A_declared_variables)), s)
      | P_declarations \<Rightarrow>
          (Inr (PyGenerator (map (\<lambda>n. PyNode (root n)) (declarations enum_values self))), s))"

text \<open>The properties whose attribute holds a list or a set.\<close>

fun attribute_of :: "property \<Rightarrow> attribute option" where
  "attribute_of P_base_contracts = Some A_base_contracts"
| "attribute_of P_child_contracts = Some A_child_contracts"
| "attribute_of P_linearized_base_contracts = Some A_linearized_base_contracts"
| "attribute_of P_enums = Some A_enums"
| "attribute_of P_errors = Some A_errors"
| "attribute_of P_events = Some A_events"
| "attribute_of P_functions = Some A_functions"
| "attribute_of P_modifiers = Some A_modifiers"
| "attribute_of P_structs = Some A_structs"
| "attribute_of P_user_defined_value_types = Some A_user_defined_value_types"
| "attribute_of P_using_for_directives = Some A_using_for_directives"
| "attribute_of P_declared_variables = Some A_declared_variables"
| "attribute_of p = None"

text \<open>A tuple or a frozenset.\<close>

fun snapshot :: "pyvalue \<Rightarrow> bool" where
  "snapshot (PyTuple vs) = True"
| "snapshot (PyFrozenSet xs) = True"
| "snapshot v = False"

subsection \<open>Changing a value in place\<close>

text \<open>
  Methods with which a caller changes a list or a set in place: \<open>clear\<close>, \<open>pop\<close> and
  \<open>reverse\<close> of a list, \<open>clear\<close>, \<open>add\<close> and \<open>discard\<close> of a set. A tuple, a frozenset, a
  string, a number, \<open>None\<close>, an enum member and a generator have none of them, and
  \<open>ContractDefinition\<close> defines none: the call raises \<open>AttributeError\<close>.
\<close>

datatype mutation =
    List_clear
  | List_pop
  | List_reverse
  | Set_clear
  | Set_add obj
  | Set_discard obj

text \<open>
  The list held in an attribute changed in place: \<open>f\<close>, \<open>g\<close> and \<open>h\<close> are the same operation
  at the three element types (specifiers, ids and child nodes).
\<close>

definition update_list ::
  "(InheritanceSpecifier list \<Rightarrow> InheritanceSpecifier list) \<Rightarrow> (int list \<Rightarrow> int list) \<Rightarrow>
     (ir_node list \<Rightarrow> ir_node list) \<Rightarrow> attribute \<Rightarrow> ContractDefinition \<Rightarrow> ContractDefinition" where
  "update_list f g h a c =
     (case a of
        A_base_contracts \<Rightarrow> c\<lparr>self__base_contracts := f (self__base_contracts c)\<rparr>
      | A_linearized_base_contracts \<Rightarrow>
          c\<lparr>self__linearized_base_contracts := g (self__linearized_base_contracts c)\<rparr>
      | A_enums \<Rightarrow> c\<lparr>self__enums := h (self__enums c)\<rparr>
      | A_errors \<Rightarrow> c\<lparr>self__errors := h (self__errors c)\<rparr>
      | A_events \<Rightarrow> c\<lparr>self__events := h (self__events c)\<rparr>
      | A_functions \<Rightarrow> c\<lparr>self__functions := h (self__functions c)\<rparr>
      | A_modifiers \<Rightarrow> c\<lparr>self__modifiers := h (self__modifiers c)\<rparr>
      | A_structs \<Rightarrow> c\<lparr>self__structs := h (self__structs c)\<rparr>
      | A_user_defined_value_types \<Rightarrow>
          c\<lparr>self__user_defined_value_types := h (self__user_defined_value_types c)\<rparr>
      | A_using_for_directives \<Rightarrow>
          c\<lparr>self__using_for_directives := h (self__using_for_directives c)\<rparr>
      | A_declared_variables \<Rightarrow> c\<lparr>self__declared_variables := h (self__declared_variables c)\<rparr>
      | A_child_contracts \<Rightarrow> c)"

text \<open>
  \<open>mutate s v m\<close>: a caller invokes the in-place method \<open>m\<close> on the value \<open>v\<close>. Only a list
  or set object has such a method, a list the list methods and a set the set methods; the
  change then shows in the contract that holds the object. \<open>pop\<close> of an empty list raises
  \<open>IndexError\<close>.
\<close>

definition mutate :: "session \<Rightarrow> pyvalue \<Rightarrow> mutation \<Rightarrow> error + session" where
  "mutate s v m =
     (case v of
        PyContainer x a \<Rightarrow>
          (let c = objects s x in
           if a = A_child_contracts
           then (case m of
                   Set_clear \<Rightarrow>
                     Inr (s\<lparr>objects := (objects s)(x := c\<lparr>self__child_contracts := {}\<rparr>)\<rparr>)
                 | Set_add y \<Rightarrow>
                     Inr (s\<lparr>objects := (objects s)
                            (x := c\<lparr>self__child_contracts := insert y (self__child_contracts c)\<rparr>)\<rparr>)
                 | Set_discard y \<Rightarrow>
                     Inr (s\<lparr>objects := (objects s)
                            (x := c\<lparr>self__child_contracts := self__child_contracts c - {y}\<rparr>)\<rparr>)
                 | _ \<Rightarrow> Inl AttributeError)
           else (case m of
                   List_clear \<Rightarrow>
                     Inr (s\<lparr>objects := (objects s)
                            (x := update_list (\<lambda>l. []) (\<lambda>l. []) (\<lambda>l. []) a c)\<rparr>)
                 | List_pop \<Rightarrow>
                     (if elements c a = [] then Inl IndexError
                      else Inr (s\<lparr>objects := (objects s)
                                  (x := update_list butlast butlast butlast a c)\<rparr>))
                 | List_reverse \<Rightarrow>
                     Inr (s\<lparr>objects := (objects s)(x := update_list rev rev rev a c)\<rparr>)
                 | _ \<Rightarrow> Inl AttributeError))
      | _ \<Rightarrow> Inl AttributeError)"

text \<open>A value that holds no list or set object of a contract.\<close>

fun shares_nothing :: "pyvalue \<Rightarrow> bool" where
  "shares_nothing (PyContainer x a) = False"
| "shares_nothing (PyTuple vs) = list_all shares_nothing vs"
| "shares_nothing (PyGenerator vs) = list_all shares_nothing vs"
| "shares_nothing v = True"

section \<open>Properties of the destroy callback\<close>

lemma without_child_empty: "without_child h self {} = h"
  by (simp add: without_child_def)

lemma without_child_insert:
  "without_child (h(b := (h b)\<lparr>self__child_contracts := self__child_contracts (h b) - {self}\<rparr>))
     self bs = without_child h self (insert b bs)"
  by (rule ext) (simp add: without_child_def)

lemma destroy_append:
  "ContractDefinition_destroy h self (xs @ ys) =
     (case ContractDefinition_destroy h self xs of
        Inl r \<Rightarrow> Inl r
      | Inr h' \<Rightarrow> ContractDefinition_destroy h' self ys)"
  by (induction xs arbitrary: h) (auto simp: set_remove_def split: sum.splits)

lemma destroy_Inr_heap:
  "ContractDefinition_destroy h self bs = Inr h' \<Longrightarrow> h' = without_child h self (set bs)"
proof (induction bs arbitrary: h)
  case Nil
  then show ?case by (simp add: without_child_empty)
next
  case (Cons b bs)
  from Cons.prems have mem: "self \<in> self__child_contracts (h b)"
    by (auto simp: set_remove_def split: if_splits)
  let ?h1 = "h(b := (h b)\<lparr>self__child_contracts := self__child_contracts (h b) - {self}\<rparr>)"
  from Cons.prems mem have "ContractDefinition_destroy ?h1 self bs = Inr h'"
    by (simp add: set_remove_def)
  then have "h' = without_child ?h1 self (set bs)" by (rule Cons.IH)
  then show ?case by (simp add: without_child_insert)
qed

lemma destroy_Inl_KeyError:
  "ContractDefinition_destroy h self bs = Inl (e, h') \<Longrightarrow> e = KeyError"
  by (induction bs arbitrary: h) (auto simp: set_remove_def split: if_splits)

lemma destroy_Inr_iff:
  "(\<exists>h'. ContractDefinition_destroy h self bs = Inr h') \<longleftrightarrow>
     distinct bs \<and> (\<forall>b \<in> set bs. self \<in> self__child_contracts (h b))"
proof (induction bs arbitrary: h)
  case Nil
  then show ?case by simp
next
  case (Cons b bs)
  let ?h1 = "h(b := (h b)\<lparr>self__child_contracts := self__child_contracts (h b) - {self}\<rparr>)"
  show ?case
  proof (cases "self \<in> self__child_contracts (h b)")
    case False
    then show ?thesis by (simp add: set_remove_def)
  next
    case True
    have "(\<exists>h'. ContractDefinition_destroy h self (b # bs) = Inr h') \<longleftrightarrow>
          (\<exists>h'. ContractDefinition_destroy ?h1 self bs = Inr h')"
      using True by (simp add: set_remove_def)
    also have "\<dots> \<longleftrightarrow> distinct bs \<and> (\<forall>x \<in> set bs. self \<in> self__child_contracts (?h1 x))"
      by (rule Cons.IH)
    also have "\<dots> \<longleftrightarrow> distinct (b # bs) \<and> (\<forall>x \<in> set (b # bs). self \<in> self__child_contracts (h x))"
      using True by auto
    finally show ?thesis .
  qed
qed

lemma destroy_Inl_iff:
  "ContractDefinition_destroy h self bs = Inl (e, h') \<longleftrightarrow>
     e = KeyError \<and>
     (\<exists>i<length bs. ContractDefinition_destroy h self (take i bs) = Inr h' \<and>
                     self \<notin> self__child_contracts (h' (bs ! i)))"
proof (induction bs arbitrary: h)
  case Nil
  then show ?case by simp
next
  case (Cons b bs)
  show ?case
  proof (cases "self \<in> self__child_contracts (h b)")
    case False
    then show ?thesis
      by (auto simp: set_remove_def less_Suc_eq_0_disj)
  next
    case True
    let ?h1 = "h(b := (h b)\<lparr>self__child_contracts := self__child_contracts (h b) - {self}\<rparr>)"
    have step: "ContractDefinition_destroy h self (b # xs) = ContractDefinition_destroy ?h1 self xs"
      for xs using True by (simp add: set_remove_def)
    have "(\<exists>i<length (b # bs). ContractDefinition_destroy h self (take i (b # bs)) = Inr h' \<and>
              self \<notin> self__child_contracts (h' ((b # bs) ! i))) \<longleftrightarrow>
          (\<exists>j<length bs. ContractDefinition_destroy ?h1 self (take j bs) = Inr h' \<and>
              self \<notin> self__child_contracts (h' (bs ! j)))"
      (is "?L \<longleftrightarrow> ?R")
    proof
      assume ?L
      then obtain i where i: "i < length (b # bs)"
        "ContractDefinition_destroy h self (take i (b # bs)) = Inr h'"
        "self \<notin> self__child_contracts (h' ((b # bs) ! i))" by blast
      show ?R
      proof (cases i)
        case 0
        with i True show ?thesis by simp
      next
        case (Suc j)
        with i step show ?thesis by auto
      qed
    next
      assume ?R
      then obtain j where j: "j < length bs"
        "ContractDefinition_destroy ?h1 self (take j bs) = Inr h'"
        "self \<notin> self__child_contracts (h' (bs ! j))" by blast
      then have "Suc j < length (b # bs)"
        "ContractDefinition_destroy h self (take (Suc j) (b # bs)) = Inr h'"
        "self \<notin> self__child_contracts (h' ((b # bs) ! Suc j))"
        using step by simp_all
      then show ?L by blast
    qed
    then have ex: "?L \<longleftrightarrow> ?R" .
    show ?thesis
      unfolding step [of bs] Cons.IH [of ?h1] ex ..
  qed
qed

text \<open>
  Claim C9. The destroy callback raises (\<open>KeyError\<close>, which aborts the invalidation
  that runs it) exactly when it reaches a base contract whose \<open>child_contracts\<close> set does
  not hold the contract at the moment its removal is attempted, and the heap it leaves
  is the one of that moment. When the contract is present at every attempted removal,
  the callback returns normally and has removed the contract from the set of every
  recorded base.
\<close>

theorem destroy_fails_exactly_on_absent_entry:
  "(ContractDefinition_destroy h self bs = Inl (e, h') \<longleftrightarrow>
      e = KeyError \<and>
      (\<exists>i<length bs. ContractDefinition_destroy h self (take i bs) = Inr h' \<and>
                      self \<notin> self__child_contracts (h' (bs ! i)))) \<and>
   ((\<forall>i<length bs. \<forall>hi. ContractDefinition_destroy h self (take i bs) = Inr hi \<longrightarrow>
                          self \<in> self__child_contracts (hi (bs ! i))) \<longrightarrow>
      ContractDefinition_destroy h self bs = Inr (without_child h self (set bs)))"
proof (intro conjI impI)
  show "ContractDefinition_destroy h self bs = Inl (e, h') \<longleftrightarrow>
      e = KeyError \<and>
      (\<exists>i<length bs. ContractDefinition_destroy h self (take i bs) = Inr h' \<and>
                      self \<notin> self__child_contracts (h' (bs ! i)))"
    by (rule destroy_Inl_iff)
next
  assume present: "\<forall>i<length bs. \<forall>hi. ContractDefinition_destroy h self (take i bs) = Inr hi \<longrightarrow>
                          self \<in> self__child_contracts (hi (bs ! i))"
  show "ContractDefinition_destroy h self bs = Inr (without_child h self (set bs))"
  proof (cases "ContractDefinition_destroy h self bs")
    case (Inl r)
    obtain e1 h1 where "r = (e1, h1)" by (cases r)
    with Inl present show ?thesis
      by (auto simp: destroy_Inl_iff)
  next
    case (Inr h1)
    then show ?thesis by (simp add: destroy_Inr_heap)
  qed
qed

section \<open>Properties of the post-process callback\<close>

lemma with_child_empty: "with_child h self {} = h"
  by (simp add: with_child_def)

lemma with_child_set_add:
  "with_child (set_add h b self) self bs = with_child h self (insert b bs)"
  by (rule ext) (simp add: with_child_def set_add_def)

lemma referenced_declaration_objects [simp]:
  "referenced_declaration (s\<lparr>objects := h\<rparr>) cu x = referenced_declaration s cu x"
  by (simp add: referenced_declaration_def resolve_node_def)

lemma resolved_contracts_objects [simp]:
  "resolved_contracts (s\<lparr>objects := h\<rparr>) cu xs = resolved_contracts s cu xs"
  by (simp add: resolved_contracts_def)

lemma set_add_cu_hash [simp]: "self_cu_hash (set_add h b self x) = self_cu_hash (h x)"
  by (simp add: set_add_def)

lemma with_child_cu_hash [simp]: "self_cu_hash (with_child h self bs x) = self_cu_hash (h x)"
  by (simp add: with_child_def)

lemma resolved_contracts_Nil [simp]: "resolved_contracts s cu [] = []"
  by (simp add: resolved_contracts_def)

lemma resolved_contracts_Cons:
  "resolved_contracts s cu (x # xs) =
     (case referenced_declaration s cu x of
        Inr (ContractDefinitionRef contract) \<Rightarrow> [contract]
      | _ \<Rightarrow> []) @ resolved_contracts s cu xs"
  by (simp add: resolved_contracts_def)

lemma post_process_loop_Inr:
  "post_process_loop s self specifiers acc = Inr (s', bs) \<Longrightarrow>
     bs = acc @ resolved_contracts s (self_cu_hash (objects s self)) specifiers \<and>
     s' = s\<lparr>objects := with_child (objects s) self
             (set (resolved_contracts s (self_cu_hash (objects s self)) specifiers))\<rparr> \<and>
     length (resolved_contracts s (self_cu_hash (objects s self)) specifiers) = length specifiers"
proof (induction specifiers arbitrary: s acc)
  case Nil
  then show ?case by (simp add: resolved_contracts_def with_child_empty)
next
  case (Cons x xs)
  let ?cu = "self_cu_hash (objects s self)"
  from Cons.prems obtain b where b: "referenced_declaration s ?cu x = Inr (ContractDefinitionRef b)"
    by (auto split: sum.splits node_ref.splits)
  let ?s1 = "s\<lparr>objects := set_add (objects s) b self\<rparr>"
  from Cons.prems b have "post_process_loop ?s1 self xs (acc @ [b]) = Inr (s', bs)"
    by simp
  from Cons.IH [OF this] b show ?case
    by (simp add: resolved_contracts_Cons with_child_set_add)
qed

lemma post_process_loop_Inr_iff:
  "(\<exists>r. post_process_loop s self specifiers acc = Inr r) \<longleftrightarrow>
     (\<forall>x \<in> set specifiers. \<exists>b.
        referenced_declaration s (self_cu_hash (objects s self)) x = Inr (ContractDefinitionRef b))"
proof (induction specifiers arbitrary: s acc)
  case Nil
  then show ?case by simp
next
  case (Cons x xs)
  let ?cu = "self_cu_hash (objects s self)"
  show ?case
  proof (cases "referenced_declaration s ?cu x")
    case (Inl e)
    then show ?thesis by auto
  next
    case (Inr n)
    show ?thesis
    proof (cases n)
      case (OtherNodeRef o')
      with Inr show ?thesis by auto
    next
      case (ContractDefinitionRef b)
      let ?s1 = "s\<lparr>objects := set_add (objects s) b self\<rparr>"
      have "(\<exists>r. post_process_loop s self (x # xs) acc = Inr r) \<longleftrightarrow>
            (\<exists>r. post_process_loop ?s1 self xs (acc @ [b]) = Inr r)"
        using Inr ContractDefinitionRef by simp
      also have "\<dots> \<longleftrightarrow> (\<forall>y \<in> set xs. \<exists>b.
          referenced_declaration ?s1 (self_cu_hash (objects ?s1 self)) y = Inr (ContractDefinitionRef b))"
        by (rule Cons.IH)
      finally show ?thesis
        using Inr ContractDefinitionRef by simp
    qed
  qed
qed

lemma post_process_Inr:
  assumes "ContractDefinition_post_process s self = Inr s'"
  shows "s' = s\<lparr>objects := with_child (objects s) self (set (resolved_base_contracts s self)),
               destroy_queue := (destroy_queue s)
                 (self_file (objects s self) :=
                    destroy_queue s (self_file (objects s self)) @
                      [ContractDefinition_destroy_of self (resolved_base_contracts s self)])\<rparr>"
    and "length (resolved_base_contracts s self) = length (self__base_contracts (objects s self))"
proof -
  from assms obtain s1 bs where
    loop: "post_process_loop s self (self__base_contracts (objects s self)) [] = Inr (s1, bs)"
    and s': "s' = register_destroy_callback s1 (self_file (objects s1 self))
                    (ContractDefinition_destroy_of self bs)"
    by (auto simp: ContractDefinition_post_process_def split: sum.splits)
  note r = post_process_loop_Inr [OF loop]
  have fl: "self_file (objects s1 self) = self_file (objects s self)"
    using r by (simp add: with_child_def)
  show "s' = s\<lparr>objects := with_child (objects s) self (set (resolved_base_contracts s self)),
               destroy_queue := (destroy_queue s)
                 (self_file (objects s self) :=
                    destroy_queue s (self_file (objects s self)) @
                      [ContractDefinition_destroy_of self (resolved_base_contracts s self)])\<rparr>"
    unfolding s' fl using r
    by (simp add: register_destroy_callback_def resolved_base_contracts_def)
  show "length (resolved_base_contracts s self) = length (self__base_contracts (objects s self))"
    using r by (simp add: resolved_base_contracts_def)
qed

lemma set_resolved_contracts:
  "B \<in> set (resolved_contracts s cu xs) \<longleftrightarrow>
     (\<exists>x \<in> set xs. referenced_declaration s cu x = Inr (ContractDefinitionRef B))"
  by (induction xs) (auto simp: resolved_contracts_Cons split: sum.splits node_ref.splits)

lemma set_resolved_base_contracts:
  "B \<in> set (resolved_base_contracts s self) \<longleftrightarrow> directly_inherits s self B"
  by (simp add: resolved_base_contracts_def directly_inherits_def set_resolved_contracts)

section \<open>Duplicate inheritance specifiers\<close>

lemmas example_defs = plain_contract_def specifier_to_def example_objects_def
  example_session_def duplicate_session_def

lemma first_repetition:
  "\<not> distinct xs \<Longrightarrow> \<exists>j<length xs. distinct (take j xs) \<and> xs ! j \<in> set (take j xs)"
proof (induction xs rule: rev_induct)
  case Nil
  then show ?case by simp
next
  case (snoc y ys)
  show ?case
  proof (cases "distinct ys")
    case True
    with snoc.prems have "y \<in> set ys" by simp
    with True have "length ys < length (ys @ [y]) \<and> distinct (take (length ys) (ys @ [y])) \<and>
        (ys @ [y]) ! length ys \<in> set (take (length ys) (ys @ [y]))"
      by simp
    then show ?thesis by blast
  next
    case False
    then obtain j where j: "j < length ys" "distinct (take j ys)" "ys ! j \<in> set (take j ys)"
      using snoc.IH by blast
    then have "j < length (ys @ [y]) \<and> distinct (take j (ys @ [y])) \<and>
        (ys @ [y]) ! j \<in> set (take j (ys @ [y]))"
      by (simp add: nth_append)
    then show ?thesis by blast
  qed
qed

lemma destroy_repeated_base:
  assumes j: "j < length bs" "distinct (take j bs)" "bs ! j \<in> set (take j bs)"
      and present: "\<forall>b \<in> set bs. self \<in> self__child_contracts (h b)"
  shows "ContractDefinition_destroy h self (take j bs) = Inr (without_child h self (set (take j bs)))"
    and "self \<notin> self__child_contracts (without_child h self (set (take j bs)) (bs ! j))"
    and "ContractDefinition_destroy h self bs =
           Inl (KeyError, without_child h self (set (take j bs)))"
proof -
  have "\<forall>b \<in> set (take j bs). self \<in> self__child_contracts (h b)"
    using present by (meson in_set_takeD)
  with j(2) obtain h' where h': "ContractDefinition_destroy h self (take j bs) = Inr h'"
    using destroy_Inr_iff [of h self "take j bs"] by blast
  then show 1: "ContractDefinition_destroy h self (take j bs) =
      Inr (without_child h self (set (take j bs)))"
    using destroy_Inr_heap by blast
  show 2: "self \<notin> self__child_contracts (without_child h self (set (take j bs)) (bs ! j))"
    using j(3) by (simp add: without_child_def)
  show "ContractDefinition_destroy h self bs =
           Inl (KeyError, without_child h self (set (take j bs)))"
    using destroy_Inl_iff [of h self bs KeyError "without_child h self (set (take j bs))"] j(1) 1 2
    by blast
qed

text \<open>
  Claim C10. Let the inheritance specifiers of a contract resolve to the list \<open>bs\<close> in
  which some base occurs more than once, and let its post-process callback have run.
  The callback has recorded one entry per specifier in the list it hands to the destroy
  callback, while the contract is in the set of each base once (the heap is the old one
  with the contract inserted into the set of every member of \<open>bs\<close>). There is a position
  \<open>j\<close> holding a base that already occurs before \<open>j\<close> such that, in every heap where the
  contract is still in the set of every recorded base (the heap right after the
  post-process callback is one), the destroy callback performs the removals before \<open>j\<close>
  and raises \<open>KeyError\<close> at \<open>j\<close>, the second removal from that base.
\<close>

theorem duplicate_base_destroy_raises:
  fixes s :: session and self :: obj
  defines "bs \<equiv> resolved_base_contracts s self"
  assumes pp: "ContractDefinition_post_process s self = Inr s'"
      and dup: "\<not> distinct bs"
  shows "length bs = length (self__base_contracts (objects s self)) \<and>
         destroy_queue s' (self_file (objects s self)) =
           destroy_queue s (self_file (objects s self)) @ [ContractDefinition_destroy_of self bs] \<and>
         objects s' = with_child (objects s) self (set bs) \<and>
         (\<exists>j<length bs. bs ! j \<in> set (take j bs) \<and>
            (\<forall>h. (\<forall>b \<in> set bs. self \<in> self__child_contracts (h b)) \<longrightarrow>
               (\<exists>h'. ContractDefinition_destroy h self (take j bs) = Inr h' \<and>
                     self \<notin> self__child_contracts (h' (bs ! j)) \<and>
                     ContractDefinition_destroy h self bs = Inl (KeyError, h'))) \<and>
            (\<exists>h'. run_destroy_callback s' (ContractDefinition_destroy_of self bs) =
                     Inl (KeyError, s'\<lparr>objects := h'\<rparr>)))"
proof -
  note r = post_process_Inr [OF pp, folded bs_def]
  from dup obtain j where j: "j < length bs" "distinct (take j bs)" "bs ! j \<in> set (take j bs)"
    using first_repetition by blast
  have in_s': "\<forall>b \<in> set bs. self \<in> self__child_contracts (objects s' b)"
    by (subst r(1)) (simp add: with_child_def)
  have gen: "\<forall>h. (\<forall>b \<in> set bs. self \<in> self__child_contracts (h b)) \<longrightarrow>
               (\<exists>h'. ContractDefinition_destroy h self (take j bs) = Inr h' \<and>
                     self \<notin> self__child_contracts (h' (bs ! j)) \<and>
                     ContractDefinition_destroy h self bs = Inl (KeyError, h'))"
    using destroy_repeated_base [OF j] by blast
  have run: "\<exists>h'. run_destroy_callback s' (ContractDefinition_destroy_of self bs) =
                     Inl (KeyError, s'\<lparr>objects := h'\<rparr>)"
    using destroy_repeated_base(3) [OF j in_s'] by (auto simp: run_destroy_callback_def)
  have q: "destroy_queue s' (self_file (objects s self)) =
           destroy_queue s (self_file (objects s self)) @ [ContractDefinition_destroy_of self bs]"
    by (subst r(1)) simp
  have o: "objects s' = with_child (objects s) self (set bs)"
    by (subst r(1)) simp
  from r(2) q o j(1) j(3) gen run show ?thesis by blast
qed

lemma set_add_file [simp]: "self_file (set_add h b self x) = self_file (h x)"
  by (simp add: set_add_def)

lemma dup_pp:
  "ContractDefinition_post_process duplicate_session 3 =
     Inr (duplicate_session
       \<lparr>objects := set_add (set_add (set_add (objects duplicate_session) 1 3) 1 3) 2 3,
        destroy_queue := (destroy_queue duplicate_session)
           (''C.sol'' := [ContractDefinition_destroy_of 3 [1, 1, 2]])\<rparr>)"
  by (simp add: example_defs ContractDefinition_post_process_def referenced_declaration_def
     resolve_node_def register_destroy_callback_def)

lemma dup_resolved: "resolved_base_contracts duplicate_session 3 = [1, 1, 2]"
  by (simp add: example_defs resolved_base_contracts_def resolved_contracts_def
      referenced_declaration_def resolve_node_def)

theorem duplicate_base_destroy_raises_witness:
  "\<exists>s' h'. ContractDefinition_post_process duplicate_session 3 = Inr s' \<and>
     \<not> distinct (resolved_base_contracts duplicate_session 3) \<and>
     destroy_queue s' ''C.sol'' = [ContractDefinition_destroy_of 3 [1, 1, 2]] \<and>
     run_destroy_callback s' (ContractDefinition_destroy_of 3 [1, 1, 2]) =
       Inl (KeyError, s'\<lparr>objects := h'\<rparr>)"
proof -
  have d: "\<not> distinct (resolved_base_contracts duplicate_session 3)"
    by (simp add: dup_resolved)
  have f: "self_file (objects duplicate_session 3) = ''C.sol''"
    by (simp add: example_defs)
  have q: "destroy_queue duplicate_session ''C.sol'' = []"
    by (simp add: example_defs)
  from duplicate_base_destroy_raises [OF dup_pp d] d dup_pp show ?thesis
    unfolding dup_resolved f q by auto
qed

theorem destroy_fails_exactly_on_absent_entry_witness:
  "ContractDefinition_destroy (set_add (set_add example_objects 1 4) 2 4) 4 [1, 2] =
     Inr (without_child (set_add (set_add example_objects 1 4) 2 4) 4 (set [1, 2])) \<and>
   ContractDefinition_destroy example_objects 4 [1, 2] = Inl (KeyError, example_objects)"
proof -
  let ?h = "set_add (set_add example_objects 1 4) 2 4"
  have present: "\<forall>i<length [1, 2 :: obj]. \<forall>hi.
      ContractDefinition_destroy ?h 4 (take i [1, 2]) = Inr hi
        \<longrightarrow> 4 \<in> self__child_contracts (hi ([1, 2] ! i))"
    by (auto simp: less_Suc_eq set_remove_def set_add_def)
  have absent: "\<exists>i<length [1, 2 :: obj].
      ContractDefinition_destroy example_objects 4 (take i [1, 2]) = Inr example_objects \<and>
      4 \<notin> self__child_contracts (example_objects ([1, 2] ! i))"
    by (rule exI [of _ 0]) (simp add: example_defs)
  from destroy_fails_exactly_on_absent_entry [of ?h 4 "[1, 2]"] present
       destroy_fails_exactly_on_absent_entry [of example_objects 4 "[1, 2]" KeyError example_objects]
       absent
  show ?thesis by blast
qed

text \<open>
  Claim C3, at a contract whose specifiers resolve to \<open>B\<close>, \<open>B\<close> and \<open>D\<close>: the
  post-process callback returns and registers the destroy callback for \<open>[B, B, D]\<close>;
  running that callback raises \<open>KeyError\<close> at the second removal from \<open>B\<close>, and the set of
  \<open>D\<close>, empty before the post-process callback ran, still holds the contract.
\<close>

theorem destroy_after_post_process_duplicate_base:
  "self__child_contracts (objects duplicate_session 2) = {} \<and>
   (case ContractDefinition_post_process duplicate_session 3 of
      Inl r \<Rightarrow> False
    | Inr s1 \<Rightarrow>
        destroy_queue s1 ''C.sol'' = [ContractDefinition_destroy_of 3 [1, 1, 2]] \<and>
        (case run_destroy_callback s1 (ContractDefinition_destroy_of 3 [1, 1, 2]) of
           Inl (e, s2) \<Rightarrow> e = KeyError \<and> self__child_contracts (objects s2 2) = {3}
         | Inr s2 \<Rightarrow> False))"
  by (simp add: dup_pp run_destroy_callback_def set_remove_def set_add_def)
     (simp add: example_defs)

lemma without_with_child:
  "\<forall>b \<in> bs. self \<notin> self__child_contracts (h b) \<Longrightarrow>
     without_child (with_child h self bs) self bs = h"
  by (rule ext) (simp add: without_child_def with_child_def)

text \<open>
  When the specifiers resolve to pairwise distinct contracts, none of which holds
  \<open>self\<close> yet, the destroy callback that the post-process callback registered returns
  and gives back the heap as it was before the post-process callback ran.
\<close>

lemma destroy_undoes_post_process:
  assumes pp: "ContractDefinition_post_process s self = Inr s'"
      and dist: "distinct (resolved_base_contracts s self)"
      and fresh: "\<forall>b \<in> set (resolved_base_contracts s self). self \<notin> self__child_contracts (objects s b)"
  shows "run_destroy_callback s' (ContractDefinition_destroy_of self (resolved_base_contracts s self)) =
           Inr (s'\<lparr>objects := objects s\<rparr>)"
proof -
  let ?bs = "resolved_base_contracts s self"
  have o: "objects s' = with_child (objects s) self (set ?bs)"
    by (subst post_process_Inr(1) [OF pp]) simp
  have "\<forall>b \<in> set ?bs. self \<in> self__child_contracts (objects s' b)"
    by (simp add: o with_child_def)
  with dist obtain h' where h': "ContractDefinition_destroy (objects s') self ?bs = Inr h'"
    using destroy_Inr_iff [of "objects s'" self ?bs] by blast
  then have "h' = without_child (objects s') self (set ?bs)"
    by (rule destroy_Inr_heap)
  then have "h' = objects s"
    using fresh by (simp add: o without_with_child)
  with h' show ?thesis by (simp add: run_destroy_callback_def)
qed

section \<open>Properties of the pattern matcher\<close>

lemma take_eq_length: "take (length w) xs = w \<Longrightarrow> length w \<le> length xs"
  by (metis length_take min.cobounded1)

lemma matches_bounds:
  "(e, gs') \<in> set (matches r s (pos, gs)) \<Longrightarrow> pos \<le> length s \<Longrightarrow> pos \<le> e \<and> e \<le> length s"
proof (induction r arbitrary: pos gs e gs')
  case (Lit w)
  then have "take (length w) (drop pos s) = w" "e = pos + length w"
    by (auto split: if_splits)
  then have "length w \<le> length s - pos"
    using take_eq_length [of w "drop pos s"] by simp
  with \<open>e = pos + length w\<close> Lit.prems show ?case by simp
next
  case (Seq a b)
  then obtain m gm where m: "(m, gm) \<in> set (matches a s (pos, gs))"
    "(e, gs') \<in> set (matches b s (m, gm))"
    by auto
  from Seq.IH(1) [OF m(1) Seq.prems(2)] have "pos \<le> m" "m \<le> length s" by simp_all
  with Seq.IH(2) [OF m(2)] show ?case by simp
next
  case (Star p)
  then obtain k where "e = pos + k" "k \<le> length (takeWhile p (drop pos s))"
    by auto
  moreover have "length (takeWhile p (drop pos s)) \<le> length s - pos"
    by (metis length_drop length_takeWhile_le)
  ultimately show ?case using Star.prems by simp
next
  case (Plus p)
  then obtain k where "e = pos + k" "k \<le> length (takeWhile p (drop pos s))"
    by auto
  moreover have "length (takeWhile p (drop pos s)) \<le> length s - pos"
    by (metis length_drop length_takeWhile_le)
  ultimately show ?case using Plus.prems by simp
qed (auto split: if_splits)

lemma matches_no_group:
  "(e, gs') \<in> set (matches r s (pos, gs)) \<Longrightarrow> \<not> has_group r \<Longrightarrow> gs' = gs"
proof (induction r arbitrary: pos gs e gs')
  case (Seq a b)
  then obtain m gm where m: "(m, gm) \<in> set (matches a s (pos, gs))"
    "(e, gs') \<in> set (matches b s (m, gm))"
    by auto
  with Seq show ?case by (metis has_group.simps(5))
qed (auto split: if_splits)

lemma slice_split:
  "i \<le> m \<Longrightarrow> m \<le> j \<Longrightarrow> slice s i j = slice s i m @ slice s m j"
proof -
  assume a: "i \<le> m" "m \<le> j"
  then have "j - i = (m - i) + (j - m)" by simp
  then have "take (j - i) (drop i s) = take (m - i) (drop i s) @ take (j - m) (drop (m - i) (drop i s))"
    by (simp add: take_add)
  with a show ?thesis by (simp add: slice_def)
qed

lemma length_slice: "i \<le> j \<Longrightarrow> j \<le> length s \<Longrightarrow> length (slice s i j) = j - i"
  by (simp add: slice_def)

lemma slice_prefix_eq:
  "i \<le> length s \<Longrightarrow> slice s i (length s) = u @ v \<Longrightarrow> slice s i (i + length u) = u"
  by (simp add: slice_def)

lemma list_all_take_takeWhile:
  "k \<le> length xs \<Longrightarrow> list_all p (take k xs) \<longleftrightarrow> k \<le> length (takeWhile p xs)"
proof (induction xs arbitrary: k)
  case Nil
  then show ?case by simp
next
  case (Cons x xs)
  then show ?case by (cases k) auto
qed

lemma slice_self [simp]: "slice s i i = []"
  by (simp add: slice_def)

lemma slice_eq_Nil: "i \<le> j \<Longrightarrow> j \<le> length s \<Longrightarrow> slice s i j = [] \<longleftrightarrow> j = i"
  by (auto simp: slice_def)

lemma mem_conc: "w \<in> conc A B \<longleftrightarrow> (\<exists>u v. w = u @ v \<and> u \<in> A \<and> v \<in> B)"
  by (simp add: conc_def)

lemma slice_conc:
  assumes "i \<le> j" "j \<le> length s"
  shows "slice s i j \<in> conc A B \<longleftrightarrow>
           (\<exists>m. i \<le> m \<and> m \<le> j \<and> slice s i m \<in> A \<and> slice s m j \<in> B)"
proof
  assume "slice s i j \<in> conc A B"
  then obtain u v where uv: "slice s i j = u @ v" "u \<in> A" "v \<in> B"
    by (auto simp: mem_conc)
  have len: "length u + length v = j - i"
    using uv(1) assms by (metis length_append length_slice)
  let ?m = "i + length u"
  have m: "i \<le> ?m" "?m \<le> j" using len assms by arith+
  have "slice s i j = slice s i ?m @ slice s ?m j"
    using m by (rule slice_split)
  moreover have "length (slice s i ?m) = length u"
    using m assms by (simp add: length_slice)
  ultimately have "slice s i ?m = u" "slice s ?m j = v"
    using uv(1) by simp_all
  with uv(2,3) m have "i \<le> ?m \<and> ?m \<le> j \<and> slice s i ?m \<in> A \<and> slice s ?m j \<in> B"
    by simp
  then show "\<exists>m. i \<le> m \<and> m \<le> j \<and> slice s i m \<in> A \<and> slice s m j \<in> B"
    by (rule exI)
next
  assume "\<exists>m. i \<le> m \<and> m \<le> j \<and> slice s i m \<in> A \<and> slice s m j \<in> B"
  then obtain m where m: "i \<le> m" "m \<le> j" "slice s i m \<in> A" "slice s m j \<in> B"
    by blast
  have "slice s i j = slice s i m @ slice s m j"
    using m(1,2) by (rule slice_split)
  with m(3,4) show "slice s i j \<in> conc A B"
    unfolding mem_conc by blast
qed

lemma matches_lang:
  "\<not> has_anchor r \<Longrightarrow> pos \<le> length s \<Longrightarrow>
     (\<exists>gs'. (e, gs') \<in> set (matches r s (pos, gs))) \<longleftrightarrow>
       pos \<le> e \<and> e \<le> length s \<and> slice s pos e \<in> lang r"
proof (induction r arbitrary: pos gs e)
  case Eps
  then show ?case by (auto simp: slice_eq_Nil)
next
  case Bol
  then show ?case by simp
next
  case (Lit w)
  show ?case
  proof
    assume "\<exists>gs'. (e, gs') \<in> set (matches (Lit w) s (pos, gs))"
    then have t: "take (length w) (drop pos s) = w" and e: "e = pos + length w"
      by (auto split: if_splits)
    from t have "length w \<le> length s - pos"
      using take_eq_length [of w "drop pos s"] by simp
    with t e Lit.prems show "pos \<le> e \<and> e \<le> length s \<and> slice s pos e \<in> lang (Lit w)"
      by (simp add: slice_def)
  next
    assume a: "pos \<le> e \<and> e \<le> length s \<and> slice s pos e \<in> lang (Lit w)"
    then have w: "slice s pos e = w" by simp
    with a have "length w = e - pos" by (metis length_slice)
    with w a show "\<exists>gs'. (e, gs') \<in> set (matches (Lit w) s (pos, gs))"
      by (simp add: slice_def)
  qed
next
  case (Class p)
  show ?case
  proof
    assume "\<exists>gs'. (e, gs') \<in> set (matches (Class p) s (pos, gs))"
    then have "pos < length s" "p (s ! pos)" "e = Suc pos"
      by (auto split: if_splits)
    then show "pos \<le> e \<and> e \<le> length s \<and> slice s pos e \<in> lang (Class p)"
      by (simp add: slice_def take_Suc_conv_app_nth hd_drop_conv_nth take_Suc)
  next
    assume a: "pos \<le> e \<and> e \<le> length s \<and> slice s pos e \<in> lang (Class p)"
    then obtain c where c: "slice s pos e = [c]" "p c" by auto
    with a have "e - pos = 1" by (metis length_slice length_Cons list.size(3) One_nat_def)
    with a have e: "e = Suc pos" "pos < length s" by arith+
    with c have "s ! pos = c"
      by (simp add: slice_def take_Suc hd_drop_conv_nth)
    with e c show "\<exists>gs'. (e, gs') \<in> set (matches (Class p) s (pos, gs))"
      by simp
  qed
next
  case (Seq a b)
  from Seq.prems have na: "\<not> has_anchor a" and nb: "\<not> has_anchor b" by simp_all
  show ?case
  proof
    assume "\<exists>gs'. (e, gs') \<in> set (matches (Seq a b) s (pos, gs))"
    then obtain gs' m gm where m: "(m, gm) \<in> set (matches a s (pos, gs))"
      "(e, gs') \<in> set (matches b s (m, gm))"
      by auto
    from m(1) have 1: "pos \<le> m \<and> m \<le> length s \<and> slice s pos m \<in> lang a"
      using Seq.IH(1) [OF na Seq.prems(2)] by blast
    then have "m \<le> length s" by simp
    from m(2) have 2: "m \<le> e \<and> e \<le> length s \<and> slice s m e \<in> lang b"
      using Seq.IH(2) [OF nb \<open>m \<le> length s\<close>] by blast
    from 1 2 show "pos \<le> e \<and> e \<le> length s \<and> slice s pos e \<in> lang (Seq a b)"
      using slice_conc [of pos e s "lang a" "lang b"] by auto
  next
    assume a: "pos \<le> e \<and> e \<le> length s \<and> slice s pos e \<in> lang (Seq a b)"
    then obtain m where m: "pos \<le> m" "m \<le> e" "slice s pos m \<in> lang a" "slice s m e \<in> lang b"
      using slice_conc [of pos e s "lang a" "lang b"] by auto
    with a have ml: "m \<le> length s" by simp
    from m ml obtain gm where gm: "(m, gm) \<in> set (matches a s (pos, gs))"
      using Seq.IH(1) [OF na Seq.prems(2), of m gs] by blast
    from m a obtain gs' where "(e, gs') \<in> set (matches b s (m, gm))"
      using Seq.IH(2) [OF nb ml, of e gm] by blast
    with gm show "\<exists>gs'. (e, gs') \<in> set (matches (Seq a b) s (pos, gs))"
      by auto
  qed
next
  case (Opt a)
  from Opt.prems have na: "\<not> has_anchor a" by simp
  have "(\<exists>gs'. (e, gs') \<in> set (matches (Opt a) s (pos, gs))) \<longleftrightarrow>
        (\<exists>gs'. (e, gs') \<in> set (matches a s (pos, gs))) \<or> e = pos"
    by auto
  also have "\<dots> \<longleftrightarrow> (pos \<le> e \<and> e \<le> length s \<and> slice s pos e \<in> lang a) \<or> e = pos"
    using Opt.IH [OF na Opt.prems(2)] by simp
  also have "\<dots> \<longleftrightarrow> pos \<le> e \<and> e \<le> length s \<and> slice s pos e \<in> lang (Opt a)"
    using Opt.prems(2) by (auto simp: slice_eq_Nil)
  finally show ?case .
next
  case (Star p)
  have le: "length (takeWhile p (drop pos s)) \<le> length s - pos"
    by (metis length_drop length_takeWhile_le)
  show ?case
  proof
    assume "\<exists>gs'. (e, gs') \<in> set (matches (Star p) s (pos, gs))"
    then obtain k where k: "e = pos + k" "k \<le> length (takeWhile p (drop pos s))"
      by auto
    with le have "k \<le> length (drop pos s)" by simp
    then have "list_all p (take k (drop pos s))"
      using k(2) by (simp add: list_all_take_takeWhile)
    with k le Star.prems show "pos \<le> e \<and> e \<le> length s \<and> slice s pos e \<in> lang (Star p)"
      by (simp add: slice_def)
  next
    assume a: "pos \<le> e \<and> e \<le> length s \<and> slice s pos e \<in> lang (Star p)"
    then have "e - pos \<le> length (drop pos s)" by auto
    with a have "e - pos \<le> length (takeWhile p (drop pos s))"
      by (simp add: slice_def list_all_take_takeWhile)
    then have "e - pos \<in> set (rev [0..<Suc (length (takeWhile p (drop pos s)))])" by auto
    then have "(\<lambda>k. (pos + k, gs)) (e - pos) \<in>
        set (map (\<lambda>k. (pos + k, gs)) (rev [0..<Suc (length (takeWhile p (drop pos s)))]))"
      unfolding set_map by (rule imageI)
    then have "(pos + (e - pos), gs) \<in> set (matches (Star p) s (pos, gs))"
      by (simp only: matches.simps)
    with a show "\<exists>gs'. (e, gs') \<in> set (matches (Star p) s (pos, gs))"
      by auto
  qed
next
  case (Plus p)
  have le: "length (takeWhile p (drop pos s)) \<le> length s - pos"
    by (metis length_drop length_takeWhile_le)
  show ?case
  proof
    assume "\<exists>gs'. (e, gs') \<in> set (matches (Plus p) s (pos, gs))"
    then obtain k where k: "e = pos + k" "1 \<le> k" "k \<le> length (takeWhile p (drop pos s))"
      by auto
    with le have kl: "k \<le> length (drop pos s)" by simp
    then have "list_all p (take k (drop pos s))"
      using k(3) by (simp add: list_all_take_takeWhile)
    moreover have "take k (drop pos s) \<noteq> []" using k(2) kl by auto
    ultimately show "pos \<le> e \<and> e \<le> length s \<and> slice s pos e \<in> lang (Plus p)"
      using k le Plus.prems by (simp add: slice_def)
  next
    assume a: "pos \<le> e \<and> e \<le> length s \<and> slice s pos e \<in> lang (Plus p)"
    then have "e - pos \<le> length (drop pos s)" by auto
    with a have "e - pos \<le> length (takeWhile p (drop pos s))"
      by (simp add: slice_def list_all_take_takeWhile)
    moreover from a have "1 \<le> e - pos" by (auto simp: slice_def)
    ultimately have "e - pos \<in> set (rev [1..<Suc (length (takeWhile p (drop pos s)))])" by auto
    then have "(\<lambda>k. (pos + k, gs)) (e - pos) \<in>
        set (map (\<lambda>k. (pos + k, gs)) (rev [1..<Suc (length (takeWhile p (drop pos s)))]))"
      unfolding set_map by (rule imageI)
    then have "(pos + (e - pos), gs) \<in> set (matches (Plus p) s (pos, gs))"
      by (simp only: matches.simps)
    with a show "\<exists>gs'. (e, gs') \<in> set (matches (Plus p) s (pos, gs))"
      by auto
  qed
next
  case (Group g a)
  have "(\<exists>gs'. (e, gs') \<in> set (matches (Group g a) s (pos, gs))) \<longleftrightarrow>
        (\<exists>gs'. (e, gs') \<in> set (matches a s (pos, gs)))"
    by force
  with Group show ?case by simp
qed

lemma lang_IDENTIFIER: "w \<in> lang IDENTIFIER \<longleftrightarrow> is_identifier w"
proof (cases w)
  case Nil
  then show ?thesis by (simp add: IDENTIFIER_def mem_conc is_identifier_def)
next
  case (Cons c cs)
  have "c # cs \<in> lang IDENTIFIER \<longleftrightarrow> identifier_start c \<and> list_all identifier_char cs"
  proof
    assume "c # cs \<in> lang IDENTIFIER"
    then show "identifier_start c \<and> list_all identifier_char cs"
      by (auto simp: IDENTIFIER_def mem_conc)
  next
    assume "identifier_start c \<and> list_all identifier_char cs"
    then have "c # cs = [c] @ cs \<and> [c] \<in> lang (Class identifier_start) \<and>
        cs \<in> lang (Star identifier_char)"
      by simp
    then show "c # cs \<in> lang IDENTIFIER"
      unfolding IDENTIFIER_def lang.simps mem_conc by blast
  qed
  with Cons show ?thesis by (simp add: is_identifier_def)
qed

lemma seq_Nil [simp]: "seq [] = Eps"
  by (simp add: seq_def)

lemma seq_Cons [simp]: "seq (a # rs) = Seq a (seq rs)"
  by (simp add: seq_def)

lemma mem_matches_Seq:
  "(e, gs') \<in> set (matches (Seq a b) s (pos, gs)) \<longleftrightarrow>
     (\<exists>m gm. (m, gm) \<in> set (matches a s (pos, gs)) \<and> (e, gs') \<in> set (matches b s (m, gm)))"
  by auto

lemma seq_pre_group:
  assumes "\<forall>a \<in> set pre. \<not> has_group a" and "\<not> has_group r"
      and "(e, gs') \<in> set (matches (seq (pre @ [Group g r])) s (pos, gs))"
      and "pos \<le> length s"
  shows "\<exists>m. gs' = (g, m, e) # gs \<and> pos \<le> m \<and> m \<le> length s \<and>
              (e, gs) \<in> set (matches r s (m, gs))"
  using assms
proof (induction pre arbitrary: pos)
  case Nil
  then obtain gs2 where g2: "(e, gs2) \<in> set (matches r s (pos, gs))" "gs' = (g, pos, e) # gs2"
    by auto
  with Nil.prems(2) have "gs2 = gs" by (metis matches_no_group)
  with g2 Nil.prems(4) show ?case by auto
next
  case (Cons a pre)
  from Cons.prems(3) obtain m1 g1 where
    m1: "(m1, g1) \<in> set (matches a s (pos, gs))"
        "(e, gs') \<in> set (matches (seq (pre @ [Group g r])) s (m1, g1))"
    by (auto simp: mem_matches_Seq simp del: matches.simps)
  from m1(1) Cons.prems(1) have g1: "g1 = gs" by (metis matches_no_group list.set_intros(1))
  from m1(1) Cons.prems(4) have b: "pos \<le> m1" "m1 \<le> length s"
    using matches_bounds by blast+
  from Cons.prems(1) have "\<forall>a \<in> set pre. \<not> has_group a" by simp
  from Cons.IH [OF this Cons.prems(2) m1(2) [unfolded g1] b(2)] b(1)
  show ?case by auto
qed

lemma name_pattern_eq:
  "name_pattern k = seq (pattern_prefix k @ [Group ''name'' IDENTIFIER])"
  by (cases k) (simp_all add: name_pattern_def pattern_prefix_def CONTRACT_RE_def
      INTERFACE_RE_def LIBRARY_RE_def)

lemma pattern_prefix_no_group: "\<forall>a \<in> set (pattern_prefix k). \<not> has_group a"
  by (cases k) (simp_all add: pattern_prefix_def)

lemma IDENTIFIER_plain: "\<not> has_group IDENTIFIER" "\<not> has_anchor IDENTIFIER"
  by (simp_all add: IDENTIFIER_def)

lemma name_pattern_result:
  assumes "(e, gs') \<in> set (matches (name_pattern k) s (0, []))"
  shows "\<exists>m. gs' = [(''name'', m, e)] \<and> m < e \<and> e \<le> length s \<and> is_identifier (slice s m e)"
proof -
  from seq_pre_group [OF pattern_prefix_no_group IDENTIFIER_plain(1)
      assms [unfolded name_pattern_eq]]
  obtain m where m: "gs' = [(''name'', m, e)]" "m \<le> length s"
    "(e, []) \<in> set (matches IDENTIFIER s (m, []))"
    by auto
  from m(3) have l: "m \<le> e \<and> e \<le> length s \<and> slice s m e \<in> lang IDENTIFIER"
    using matches_lang [OF IDENTIFIER_plain(2) m(2), of e "[]"] by blast
  then have i: "is_identifier (slice s m e)" by (simp add: lang_IDENTIFIER)
  then have "slice s m e \<noteq> []" by (auto simp: is_identifier_def)
  with l have "m < e" by (cases "m = e") auto
  with m(1) l i show ?thesis by blast
qed

lemma name_pattern_body: "name_pattern k = Seq Bol (pattern_body k)"
  by (cases k) (simp_all add: name_pattern_eq pattern_body_def pattern_prefix_def)

lemma pattern_body_no_anchor: "\<not> has_anchor (pattern_body k)"
  by (cases k) (simp_all add: pattern_body_def pattern_prefix_def IDENTIFIER_def)

lemma matches_name_pattern:
  "matches (name_pattern k) s (0, []) = matches (pattern_body k) s (0, [])"
  by (simp add: name_pattern_body)

lemma prefix_in_lang:
  "(\<exists>e. e \<le> length s \<and> slice s 0 e \<in> L) \<longleftrightarrow> (\<exists>w rest. s = w @ rest \<and> w \<in> L)"
proof
  assume "\<exists>e. e \<le> length s \<and> slice s 0 e \<in> L"
  then obtain e where "e \<le> length s" "take e s \<in> L" by (auto simp: slice_def)
  then have "s = take e s @ drop e s \<and> take e s \<in> L" by simp
  then show "\<exists>w rest. s = w @ rest \<and> w \<in> L" by blast
next
  assume "\<exists>w rest. s = w @ rest \<and> w \<in> L"
  then obtain w rest where "s = w @ rest" "w \<in> L" by blast
  then have "length w \<le> length s \<and> slice s 0 (length w) \<in> L" by (simp add: slice_def)
  then show "\<exists>e. e \<le> length s \<and> slice s 0 e \<in> L" by (rule exI)
qed

lemma matches_iff_prefix:
  "matches (name_pattern k) s (0, []) \<noteq> [] \<longleftrightarrow>
     (\<exists>w rest. s = w @ rest \<and> w \<in> lang (pattern_body k))"
proof -
  have "matches (name_pattern k) s (0, []) \<noteq> [] \<longleftrightarrow>
        (\<exists>e gs'. (e, gs') \<in> set (matches (pattern_body k) s (0, [])))"
    unfolding matches_name_pattern by (cases "matches (pattern_body k) s (0, [])") auto
  also have "\<dots> \<longleftrightarrow> (\<exists>e. e \<le> length s \<and> slice s 0 e \<in> lang (pattern_body k))"
    using matches_lang [OF pattern_body_no_anchor, where pos = 0 and s = s and gs = "[]"] by simp
  finally show ?thesis by (simp only: prefix_in_lang)
qed

lemma conc_Nil_right [simp]: "conc A {[]} = A"
  by (auto simp: conc_def)

lemma lang_seq_Cons: "lang (seq (a # rs)) = conc (lang a) (lang (seq rs))"
  by simp

lemma lang_tail:
  "t \<in> lang (seq [Lit kw, Plus whitespace_char, Group g IDENTIFIER]) \<longleftrightarrow>
     (\<exists>ws2 name. t = kw @ ws2 @ name \<and> ws2 \<noteq> [] \<and> list_all whitespace_char ws2 \<and>
        is_identifier name)"
  by (simp add: mem_conc lang_IDENTIFIER) blast

lemma lang_body_plain:
  "w \<in> lang (seq [Star whitespace_char, Lit kw, Plus whitespace_char, Group g IDENTIFIER]) \<longleftrightarrow>
     (\<exists>ws1 ws2 name. w = ws1 @ kw @ ws2 @ name \<and> list_all whitespace_char ws1 \<and>
        ws2 \<noteq> [] \<and> list_all whitespace_char ws2 \<and> is_identifier name)"
proof -
  have "w \<in> lang (seq [Star whitespace_char, Lit kw, Plus whitespace_char, Group g IDENTIFIER]) \<longleftrightarrow>
        (\<exists>ws1 t. w = ws1 @ t \<and> list_all whitespace_char ws1 \<and>
           t \<in> lang (seq [Lit kw, Plus whitespace_char, Group g IDENTIFIER]))"
    by (simp add: mem_conc)
  also have "\<dots> \<longleftrightarrow> (\<exists>ws1 ws2 name. w = ws1 @ kw @ ws2 @ name \<and> list_all whitespace_char ws1 \<and>
        ws2 \<noteq> [] \<and> list_all whitespace_char ws2 \<and> is_identifier name)"
    unfolding lang_tail by blast
  finally show ?thesis .
qed

lemma lang_body_contract:
  "w \<in> lang (seq [Star whitespace_char, Opt (Seq (Lit ''abstract'') (Class whitespace_char)),
                    Star whitespace_char, Lit kw, Plus whitespace_char, Group g IDENTIFIER]) \<longleftrightarrow>
     (\<exists>ws1 pre ws2 name. w = ws1 @ pre @ kw @ ws2 @ name \<and> list_all whitespace_char ws1 \<and>
        abstract_prefix CONTRACT pre \<and>
        ws2 \<noteq> [] \<and> list_all whitespace_char ws2 \<and> is_identifier name)"
  (is "?L \<longleftrightarrow> ?R")
proof
  assume ?L
  then have "w \<in> conc (lang (Star whitespace_char))
        (conc (lang (Opt (Seq (Lit ''abstract'') (Class whitespace_char))))
          (lang (seq [Star whitespace_char, Lit kw, Plus whitespace_char, Group g IDENTIFIER])))"
    by (simp only: lang_seq_Cons)
  then obtain u1 u2 b where w: "w = u1 @ u2 @ b" and u1': "u1 \<in> lang (Star whitespace_char)"
    and u2': "u2 \<in> lang (Opt (Seq (Lit ''abstract'') (Class whitespace_char)))"
    and b: "b \<in> lang (seq [Star whitespace_char, Lit kw, Plus whitespace_char, Group g IDENTIFIER])"
    unfolding mem_conc by blast
  from u1' have u1: "list_all whitespace_char u1" by simp
  from u2' have u2: "u2 = [] \<or> (\<exists>c. u2 = ''abstract'' @ [c] \<and> whitespace_char c)"
    by (auto simp: mem_conc)
  from b obtain u3 ws2 name where b': "b = u3 @ kw @ ws2 @ name" "list_all whitespace_char u3"
    "ws2 \<noteq> []" "list_all whitespace_char ws2" "is_identifier name"
    unfolding lang_body_plain by blast
  from u2 show ?R
  proof
    assume "u2 = []"
    with w b' u1 have "w = (u1 @ u3) @ [] @ kw @ ws2 @ name \<and> list_all whitespace_char (u1 @ u3) \<and>
        abstract_prefix CONTRACT [] \<and> ws2 \<noteq> [] \<and> list_all whitespace_char ws2 \<and> is_identifier name"
      by (simp add: abstract_prefix_def)
    then show ?R by blast
  next
    assume "\<exists>c. u2 = ''abstract'' @ [c] \<and> whitespace_char c"
    then obtain c where c: "u2 = ''abstract'' @ [c]" "whitespace_char c" by blast
    then have "abstract_prefix CONTRACT (''abstract'' @ c # u3)"
      using b'(2) unfolding abstract_prefix_def by blast
    with w b' u1 c have "w = u1 @ (''abstract'' @ c # u3) @ kw @ ws2 @ name \<and> list_all whitespace_char u1 \<and>
        abstract_prefix CONTRACT (''abstract'' @ c # u3) \<and> ws2 \<noteq> [] \<and>
        list_all whitespace_char ws2 \<and> is_identifier name"
      by simp
    then show ?R by blast
  qed
next
  assume ?R
  then obtain ws1 pre ws2 name where r: "w = ws1 @ pre @ kw @ ws2 @ name" "list_all whitespace_char ws1"
    "abstract_prefix CONTRACT pre" "ws2 \<noteq> []" "list_all whitespace_char ws2" "is_identifier name"
    by blast
  from r(3) obtain u2 u3 where p: "pre = u2 @ u3" "list_all whitespace_char u3"
    "u2 \<in> lang (Opt (Seq (Lit ''abstract'') (Class whitespace_char)))"
  proof (cases "pre = []")
    case True
    then have "pre = [] @ []" "list_all whitespace_char []"
      "[] \<in> lang (Opt (Seq (Lit ''abstract'') (Class whitespace_char)))" by simp_all
    then show ?thesis by (rule that)
  next
    case False
    with r(3) obtain c ws where c: "pre = ''abstract'' @ c # ws" "whitespace_char c"
      "list_all whitespace_char ws"
      unfolding abstract_prefix_def by blast
    then have A: "pre = (''abstract'' @ [c]) @ ws" by simp
    have B: "''abstract'' @ [c] \<in> lang (Opt (Seq (Lit ''abstract'') (Class whitespace_char)))"
    proof -
      have "''abstract'' @ [c] \<in> conc {''abstract''} {w. \<exists>c. w = [c] \<and> whitespace_char c}"
        unfolding mem_conc using c(2) by blast
      then show ?thesis by (simp only: lang.simps insertI2)
    qed
    show ?thesis by (rule that [OF A c(3) B])
  qed
  have "u3 @ kw @ ws2 @ name \<in>
      lang (seq [Star whitespace_char, Lit kw, Plus whitespace_char, Group g IDENTIFIER])"
    unfolding lang_body_plain using p(2) r(4,5,6) by blast
  with p(3) have "u2 @ u3 @ kw @ ws2 @ name \<in>
      conc (lang (Opt (Seq (Lit ''abstract'') (Class whitespace_char))))
        (lang (seq [Star whitespace_char, Lit kw, Plus whitespace_char, Group g IDENTIFIER]))"
    unfolding mem_conc by blast
  with r(2) have "ws1 @ u2 @ u3 @ kw @ ws2 @ name \<in>
      conc (lang (Star whitespace_char))
        (conc (lang (Opt (Seq (Lit ''abstract'') (Class whitespace_char))))
          (lang (seq [Star whitespace_char, Lit kw, Plus whitespace_char, Group g IDENTIFIER])))"
    unfolding mem_conc [of _ "lang (Star whitespace_char)"] by auto
  with r(1) p(1) show ?L by (simp only: lang_seq_Cons append_assoc)
qed

lemma abstract_prefix_other: "k \<noteq> CONTRACT \<Longrightarrow> abstract_prefix k pre \<longleftrightarrow> pre = []"
  by (simp add: abstract_prefix_def)

lemma lang_pattern_body:
  "w \<in> lang (pattern_body k) \<longleftrightarrow>
     (\<exists>ws1 pre ws2 name. w = ws1 @ pre @ keyword k @ ws2 @ name \<and> list_all whitespace_char ws1 \<and>
        abstract_prefix k pre \<and>
        ws2 \<noteq> [] \<and> list_all whitespace_char ws2 \<and> is_identifier name)"
proof (cases k)
  case CONTRACT
  have "pattern_body CONTRACT =
      seq [Star whitespace_char, Opt (Seq (Lit ''abstract'') (Class whitespace_char)),
           Star whitespace_char, Lit (keyword CONTRACT), Plus whitespace_char,
           Group ''name'' IDENTIFIER]"
    by (simp add: pattern_body_def pattern_prefix_def keyword_def)
  with CONTRACT show ?thesis by (simp only: lang_body_contract)
next
  case INTERFACE
  have "pattern_body INTERFACE =
      seq [Star whitespace_char, Lit (keyword INTERFACE), Plus whitespace_char,
           Group ''name'' IDENTIFIER]"
    by (simp add: pattern_body_def pattern_prefix_def keyword_def)
  with INTERFACE show ?thesis
    by (simp only: lang_body_plain) (simp add: abstract_prefix_other)
next
  case LIBRARY
  have "pattern_body LIBRARY =
      seq [Star whitespace_char, Lit (keyword LIBRARY), Plus whitespace_char,
           Group ''name'' IDENTIFIER]"
    by (simp add: pattern_body_def pattern_prefix_def keyword_def)
  with LIBRARY show ?thesis
    by (simp only: lang_body_plain) (simp add: abstract_prefix_other)
qed

lemma matches_iff_leading_pattern:
  "matches (name_pattern k) s (0, []) \<noteq> [] \<longleftrightarrow> leading_pattern k s"
proof -
  have "(\<exists>w rest. s = w @ rest \<and> w \<in> lang (pattern_body k)) \<longleftrightarrow> leading_pattern k s"
  proof
    assume "\<exists>w rest. s = w @ rest \<and> w \<in> lang (pattern_body k)"
    then obtain w rest ws1 pre ws2 name where
      "s = w @ rest" "w = ws1 @ pre @ keyword k @ ws2 @ name" "list_all whitespace_char ws1"
      "abstract_prefix k pre" "ws2 \<noteq> []" "list_all whitespace_char ws2" "is_identifier name"
      unfolding lang_pattern_body by blast
    then have "s = ws1 @ pre @ keyword k @ ws2 @ name @ rest \<and> list_all whitespace_char ws1 \<and>
        abstract_prefix k pre \<and> ws2 \<noteq> [] \<and> list_all whitespace_char ws2 \<and> is_identifier name"
      by simp
    then show "leading_pattern k s" unfolding leading_pattern_def by blast
  next
    assume "leading_pattern k s"
    then obtain ws1 pre ws2 name rest where r:
      "s = ws1 @ pre @ keyword k @ ws2 @ name @ rest" "list_all whitespace_char ws1"
      "abstract_prefix k pre" "ws2 \<noteq> []" "list_all whitespace_char ws2" "is_identifier name"
      unfolding leading_pattern_def by blast
    then have "ws1 @ pre @ keyword k @ ws2 @ name \<in> lang (pattern_body k)"
      unfolding lang_pattern_body by blast
    moreover have "s = (ws1 @ pre @ keyword k @ ws2 @ name) @ rest" using r(1) by simp
    ultimately show "\<exists>w rest. s = w @ rest \<and> w \<in> lang (pattern_body k)" by blast
  qed
  then show ?thesis by (simp only: matches_iff_prefix)
qed

lemma re_match_None_iff:
  "re_match (name_pattern k) s = None \<longleftrightarrow> \<not> leading_pattern k s"
  using matches_iff_leading_pattern [of k s]
  by (cases "matches (name_pattern k) s (0, [])") (simp_all add: re_match_def)

section \<open>Properties of the name-span locator\<close>

text \<open>
  Claim C8. A declaration whose source bytes do not begin with the leading pattern of
  its kind (optional white space, for contracts optionally \<open>abstract\<close> and white space,
  the keyword of the kind, white space, an identifier) makes \<open>_parse_name_location\<close>
  raise (\<open>assert match\<close> fails) instead of returning a span; a declaration whose source
  bytes do begin with it always gets a span.
\<close>

theorem parse_name_location_fails_iff_no_leading_pattern:
  "(\<not> leading_pattern (kind self) (self_source self) \<longrightarrow>
      parse_name_location self = Inl AssertionError) \<and>
   (leading_pattern (kind self) (self_source self) \<longrightarrow>
      (\<exists>a b. parse_name_location self = Inr (a, b)))"
  using re_match_None_iff [of "kind self" "self_source self"]
  by (auto simp: parse_name_location_def split: option.splits)

lemmas pattern_defs = re_match_def name_pattern_def CONTRACT_RE_def INTERFACE_RE_def
  LIBRARY_RE_def IDENTIFIER_def whitespace_char_def identifier_start_def identifier_char_def
  in_range_def kind_def

lemma re_match_plain:
  "re_match (name_pattern (kind plain_contract)) (self_source plain_contract) =
     Some (10, [(''name'', 9, 10)])"
  by (simp add: pattern_defs plain_contract_def)

lemma re_match_corrupted:
  "re_match (name_pattern (kind (plain_contract\<lparr>self_source := ''library B {}''\<rparr>)))
     (self_source (plain_contract\<lparr>self_source := ''library B {}''\<rparr>)) = None"
  by (simp add: pattern_defs plain_contract_def)

theorem parse_name_location_fails_iff_no_leading_pattern_witness:
  "parse_name_location (plain_contract\<lparr>self_source := ''library B {}''\<rparr>) = Inl AssertionError \<and>
   (\<exists>a b. parse_name_location plain_contract = Inr (a, b))"
proof -
  have 1: "leading_pattern (kind plain_contract) (self_source plain_contract)"
    using re_match_None_iff [of "kind plain_contract" "self_source plain_contract"]
    by (simp add: re_match_plain)
  have 2: "\<not> leading_pattern (kind (plain_contract\<lparr>self_source := ''library B {}''\<rparr>))
      (self_source (plain_contract\<lparr>self_source := ''library B {}''\<rparr>))"
    using re_match_None_iff [of "kind (plain_contract\<lparr>self_source := ''library B {}''\<rparr>)"
      "self_source (plain_contract\<lparr>self_source := ''library B {}''\<rparr>)"]
    unfolding re_match_corrupted by blast
  from parse_name_location_fails_iff_no_leading_pattern [of plain_contract] 1
       parse_name_location_fails_iff_no_leading_pattern
         [of "plain_contract\<lparr>self_source := ''library B {}''\<rparr>"] 2
  show ?thesis by blast
qed

text \<open>
  Claim C7. Let the source bytes of a contract, interface or library declaration begin
  with the leading pattern of its kind, and let them be the slice of the file that
  \<open>byte_location\<close> delimits (so they are no longer than the location). Then
  \<open>_parse_name_location\<close> returns the span \<open>(start + i, start + j)\<close>, where \<open>start\<close> is
  the start of \<open>byte_location\<close> and \<open>i\<close>, \<open>j\<close> are the offsets of the group \<open>name\<close> of the
  match within the slice; the bytes between \<open>i\<close> and \<open>j\<close> are an identifier, the span is
  not empty and lies within \<open>byte_location\<close>.
\<close>

theorem name_span_within_byte_location:
  assumes "leading_pattern (kind self) (self_source self)"
      and "int (length (self_source self)) \<le> snd (byte_location self) - fst (byte_location self)"
  shows "\<exists>i j. parse_name_location self =
                 Inr (fst (byte_location self) + int i, fst (byte_location self) + int j) \<and>
               re_match (name_pattern (kind self)) (self_source self) = Some (j, [(''name'', i, j)]) \<and>
               i < j \<and> j \<le> length (self_source self) \<and>
               is_identifier (slice (self_source self) i j) \<and>
               fst (byte_location self) \<le> fst (byte_location self) + int i \<and>
               fst (byte_location self) + int j \<le> snd (byte_location self)"
proof -
  let ?s = "self_source self" and ?k = "kind self"
  from assms(1) obtain e gs' where m: "re_match (name_pattern ?k) ?s = Some (e, gs')"
    using re_match_None_iff [of ?k ?s] by (cases "re_match (name_pattern ?k) ?s") auto
  then have "(e, gs') \<in> set (matches (name_pattern ?k) ?s (0, []))"
    by (auto simp: re_match_def split: list.splits)
  from name_pattern_result [OF this] obtain i where
    i: "gs' = [(''name'', i, e)]" "i < e" "e \<le> length ?s" "is_identifier (slice ?s i e)"
    by blast
  have p: "parse_name_location self =
      Inr (fst (byte_location self) + int i, fst (byte_location self) + int e)"
    using m i(1) by (simp add: parse_name_location_def match_start_def match_end_def)
  have "fst (byte_location self) + int e \<le> snd (byte_location self)"
    using i(3) assms(2) by simp
  with p m i show ?thesis by auto
qed

theorem name_span_within_byte_location_witness:
  "parse_name_location (plain_contract\<lparr>byte_location := (100, 113)\<rparr>) = Inr (109, 110)"
proof -
  let ?c = "plain_contract\<lparr>byte_location := (100, 113)\<rparr>"
  have r: "re_match (name_pattern (kind ?c)) (self_source ?c) = Some (10, [(''name'', 9, 10)])"
    using re_match_plain by (simp add: kind_def)
  have 1: "leading_pattern (kind ?c) (self_source ?c)"
    using re_match_None_iff [of "kind ?c" "self_source ?c"] unfolding r by blast
  have 2: "int (length (self_source ?c)) \<le> snd (byte_location ?c) - fst (byte_location ?c)"
    by (simp add: plain_contract_def)
  from name_span_within_byte_location [OF 1 2] r show ?thesis
    by auto
qed

section \<open>Properties of the iteration\<close>

lemma mset_ir_iter: "mset (ir_iter t) = nodes_of t"
proof (induction t)
  case (IrNode self children)
  have "mset (concat (map ir_iter children)) = (\<Sum>child \<leftarrow> children. nodes_of child)"
    using IrNode.IH by (induction children) auto
  then show ?case by simp
qed

lemma distinct_iff_count_le_1: "distinct xs \<longleftrightarrow> (\<forall>x. count (mset xs) x \<le> 1)"
proof (induction xs)
  case Nil
  then show ?case by simp
next
  case (Cons a xs)
  have "(\<forall>x. count (mset (a # xs)) x \<le> 1) \<longleftrightarrow>
        count (mset xs) a = 0 \<and> (\<forall>x. count (mset xs) x \<le> 1)"
  proof
    assume h: "\<forall>x. count (mset (a # xs)) x \<le> 1"
    then have "count (mset (a # xs)) a \<le> 1" by blast
    then have "count (mset xs) a = 0" by simp
    moreover have "count (mset xs) x \<le> 1" for x
    proof -
      have "count (mset xs) x \<le> count (mset (a # xs)) x" by simp
      also have "\<dots> \<le> 1" using h by blast
      finally show ?thesis .
    qed
    ultimately show "count (mset xs) a = 0 \<and> (\<forall>x. count (mset xs) x \<le> 1)" by blast
  next
    assume "count (mset xs) a = 0 \<and> (\<forall>x. count (mset xs) x \<le> 1)"
    then show "\<forall>x. count (mset (a # xs)) x \<le> 1" by simp
  qed
  with Cons show ?case by (simp add: count_eq_zero_iff)
qed

lemma ContractDefinition_iter_subtree:
  "ContractDefinition_iter self c = ir_iter (contract_subtree self c)"
  by (cases "self__documentation c")
     (simp_all add: ContractDefinition_iter_def contract_subtree_def contract_children_def
        map_concat comp_def)

lemma Switch_iter_subtree: "Switch_iter self sw = ir_iter (switch_subtree self sw)"
  by (simp add: Switch_iter_def switch_subtree_def)

text \<open>
  Claim C5. The iteration of a contract and of a switch is a list (finite), it starts
  with the node itself, it is the depth-first pre-order walk of the subtree the node
  owns, and it holds every node of that subtree exactly as often as the subtree does:
  once, whenever the subtree holds no object twice. The iteration is a function of the
  node alone and returns no state.
\<close>

theorem iter_is_preorder_of_subtree:
  "ContractDefinition_iter self c = ir_iter (contract_subtree self c) \<and>
   hd (ContractDefinition_iter self c) = self \<and>
   mset (ContractDefinition_iter self c) = nodes_of (contract_subtree self c) \<and>
   (distinct (ContractDefinition_iter self c) \<longleftrightarrow>
      (\<forall>x. count (nodes_of (contract_subtree self c)) x \<le> 1)) \<and>
   Switch_iter this sw = ir_iter (switch_subtree this sw) \<and>
   hd (Switch_iter this sw) = this \<and>
   mset (Switch_iter this sw) = nodes_of (switch_subtree this sw) \<and>
   (distinct (Switch_iter this sw) \<longleftrightarrow>
      (\<forall>x. count (nodes_of (switch_subtree this sw)) x \<le> 1))"
proof -
  have d: "distinct xs \<longleftrightarrow> (\<forall>x. count (mset xs) x \<le> 1)" for xs :: "obj list"
    by (rule distinct_iff_count_le_1)
  have 1: "mset (ContractDefinition_iter self c) = nodes_of (contract_subtree self c)"
    by (simp only: ContractDefinition_iter_subtree mset_ir_iter)
  have 2: "mset (Switch_iter this sw) = nodes_of (switch_subtree this sw)"
    by (simp only: Switch_iter_subtree mset_ir_iter)
  have 3: "hd (ContractDefinition_iter self c) = self"
    by (simp add: ContractDefinition_iter_def)
  have 4: "hd (Switch_iter this sw) = this"
    by (simp add: Switch_iter_def)
  show ?thesis
    using 1 2 3 4 ContractDefinition_iter_subtree Switch_iter_subtree
      d [of "ContractDefinition_iter self c"] d [of "Switch_iter this sw"]
    by simp
qed

section \<open>Properties of the construction\<close>

lemma init_nodes_skips_other:
  "init_nodes new (SolcOtherNode r # nodes) c = init_nodes new nodes c"
  by simp

lemma init_documentation_other:
  "init_documentation new (SolcOtherDocumentation r) = Inl TypeError"
  by (simp add: init_documentation_def)

lemma ContractDefinition_init_other_documentation:
  "solc_documentation contract = SolcOtherDocumentation r \<Longrightarrow>
     ContractDefinition_init new new_specifier s self this contract = Inl TypeError"
  by (simp add: ContractDefinition_init_def ContractDefinition_init_fields_def
      init_documentation_def)

lemma Switch_init_other_expression:
  "switch_expression switch = YulOtherNode r \<Longrightarrow> Switch_init new this switch = Inl AssertionError"
  by (simp add: Switch_init_def init_expression_def)

text \<open>
  Claim C2, at a contract whose body holds an enum, a raw node of an unknown class and a
  function: the constructor returns normally, the contract has the enum and the
  function, and the unknown node has been skipped without an error.
\<close>

theorem init_skips_unrecognized_member:
  "ContractDefinition_init_fields leaf_constructors (\<lambda>r. Inr (specifier_to r 10))
       plain_contract raw_contract =
     Inr (plain_contract\<lparr>self__enums := [IrNode 5 []], self__functions := [IrNode 7 []]\<rparr>)"
  by (simp add: ContractDefinition_init_fields_def init_documentation_def raw_contract_def
      leaf_constructors_def plain_contract_def)

section \<open>Properties of the linearized base contracts\<close>

lemma linearized_loop_resolved:
  "\<forall>i \<in> set ids. \<exists>b. resolve_node s i cu = Inr (ContractDefinitionRef b) \<Longrightarrow>
     \<exists>bs. linearized_loop s cu ids acc = Inr (acc @ bs) \<and>
          map (\<lambda>b. Inr (ContractDefinitionRef b)) bs = map (\<lambda>i. resolve_node s i cu) ids"
proof (induction ids arbitrary: acc)
  case Nil
  then show ?case by simp
next
  case (Cons i ids)
  then obtain b where b: "resolve_node s i cu = Inr (ContractDefinitionRef b)" by auto
  from Cons obtain bs where bs: "linearized_loop s cu ids (acc @ [b]) = Inr ((acc @ [b]) @ bs)"
    "map (\<lambda>b. Inr (ContractDefinitionRef b)) bs = map (\<lambda>i. resolve_node s i cu) ids"
    by (metis list.set_intros(2))
  then have "linearized_loop s cu (i # ids) acc = Inr (acc @ (b # bs)) \<and>
      map (\<lambda>b. Inr (ContractDefinitionRef b)) (b # bs) = map (\<lambda>i. resolve_node s i cu) (i # ids)"
    using b by simp
  then show ?case by blast
qed

text \<open>
  Claim C6, amended. Let the precomputed linearization of contract \<open>C\<close> begin with the id under
  which \<open>C\<close> itself is registered (the compiler lists the contract first), and let every
  other id in it resolve to a contract. Then \<open>linearized_base_contracts\<close> returns, and
  what it returns begins with \<open>C\<close> and holds, position by position, the contracts that
  the ids resolve to.
\<close>

theorem linearized_base_contracts_first_is_self:
  assumes "self__linearized_base_contracts (objects s C) = own_id # rest"
      and "resolve_node s own_id (self_cu_hash (objects s C)) = Inr (ContractDefinitionRef C)"
      and "\<forall>i \<in> set rest. \<exists>b. resolve_node s i (self_cu_hash (objects s C)) =
             Inr (ContractDefinitionRef b)"
  shows "\<exists>bs. linearized_base_contracts s C = Inr (C # bs) \<and>
              map (\<lambda>b. Inr (ContractDefinitionRef b)) (C # bs) =
                map (\<lambda>i. resolve_node s i (self_cu_hash (objects s C)))
                  (self__linearized_base_contracts (objects s C))"
proof -
  let ?cu = "self_cu_hash (objects s C)"
  from linearized_loop_resolved [OF assms(3), of "[C]"] obtain bs where
    bs: "linearized_loop s ?cu rest [C] = Inr ([C] @ bs)"
        "map (\<lambda>b. Inr (ContractDefinitionRef b)) bs = map (\<lambda>i. resolve_node s i ?cu) rest"
    by blast
  then have "linearized_base_contracts s C = Inr (C # bs) \<and>
      map (\<lambda>b. Inr (ContractDefinitionRef b)) (C # bs) =
        map (\<lambda>i. resolve_node s i ?cu) (self__linearized_base_contracts (objects s C))"
    using assms(1,2) by (simp add: linearized_base_contracts_def)
  then show ?thesis by blast
qed

theorem linearized_base_contracts_first_is_self_witness:
  "linearized_base_contracts example_session 4 = Inr [4, 2, 1]"
proof -
  have 1: "self__linearized_base_contracts (objects example_session 4) = 40 # [20, 10]"
    by (simp add: example_defs)
  have cu: "self_cu_hash (objects example_session 4) = ''cu''"
    by (simp add: example_defs)
  have r: "resolve_node example_session 40 ''cu'' = Inr (ContractDefinitionRef 4)"
    "resolve_node example_session 20 ''cu'' = Inr (ContractDefinitionRef 2)"
    "resolve_node example_session 10 ''cu'' = Inr (ContractDefinitionRef 1)"
    by (simp_all add: example_defs resolve_node_def)
  have 3: "\<forall>i \<in> set [20, 10]. \<exists>b. resolve_node example_session i
      (self_cu_hash (objects example_session 4)) = Inr (ContractDefinitionRef b)"
    using r by (simp add: cu)
  from linearized_base_contracts_first_is_self [OF 1 r(1) [folded cu] 3]
  show ?thesis unfolding 1 cu by (auto simp: r)
qed

section \<open>The inheritance invariant\<close>

lemma static_fields:
  assumes "static c' = static c"
  shows "self_file c' = self_file c" "self_cu_hash c' = self_cu_hash c"
    "self__base_contracts c' = self__base_contracts c"
proof -
  have "self_file (static c') = self_file (static c)"
    "self_cu_hash (static c') = self_cu_hash (static c)"
    "self__base_contracts (static c') = self__base_contracts (static c)"
    using assms by simp_all
  then show "self_file c' = self_file c" "self_cu_hash c' = self_cu_hash c"
    "self__base_contracts c' = self__base_contracts c"
    by (simp_all add: static_def)
qed

lemma static_with_child [simp]: "static (with_child h self bs x) = static (h x)"
  by (simp add: static_def with_child_def)

lemma static_without_child [simp]: "static (without_child h self bs x) = static (h x)"
  by (simp add: static_def without_child_def)

lemma same_static_resolution:
  assumes n: "nodes_by_id s' = nodes_by_id s"
      and st: "\<forall>x. static (objects s' x) = static (objects s x)"
  shows "directly_inherits s' C B = directly_inherits s C B"
    and "resolved_base_contracts s' C = resolved_base_contracts s C"
    and "self_file (objects s' C) = self_file (objects s C)"
proof -
  have rd: "referenced_declaration s' cu x = referenced_declaration s cu x" for cu x
    by (simp add: referenced_declaration_def resolve_node_def n)
  note f = static_fields [OF st [rule_format, of C]]
  show "directly_inherits s' C B = directly_inherits s C B"
    by (simp add: directly_inherits_def rd f)
  show "resolved_base_contracts s' C = resolved_base_contracts s C"
    by (simp add: resolved_base_contracts_def resolved_contracts_def rd f)
  show "self_file (objects s' C) = self_file (objects s C)"
    by (rule f(1))
qed

lemma post_process_step:
  assumes "ContractDefinition_post_process s C = Inr s'"
  shows "nodes_by_id s' = nodes_by_id s"
    and "post_process_queue s' = post_process_queue s"
    and "\<forall>x. static (objects s' x) = static (objects s x)"
    and "\<forall>b. self__child_contracts (objects s' b) =
             self__child_contracts (objects s b) \<union> {X. X = C \<and> directly_inherits s C b}"
    and "\<forall>f. destroy_queue s' f = destroy_queue s f @ registered_destroy_callbacks s [C] f"
proof -
  note r = post_process_Inr(1) [OF assms]
  show "nodes_by_id s' = nodes_by_id s" by (subst r) simp
  show "post_process_queue s' = post_process_queue s" by (subst r) simp
  show "\<forall>x. static (objects s' x) = static (objects s x)" by (subst r) simp
  show "\<forall>b. self__child_contracts (objects s' b) =
             self__child_contracts (objects s b) \<union> {X. X = C \<and> directly_inherits s C b}"
    by (subst r) (auto simp: with_child_def set_resolved_base_contracts)
  show "\<forall>f. destroy_queue s' f = destroy_queue s f @ registered_destroy_callbacks s [C] f"
    by (subst r) (simp add: registered_destroy_callbacks_def)
qed

lemma registered_destroy_callbacks_Cons:
  "registered_destroy_callbacks s (C # cs) f =
     registered_destroy_callbacks s [C] f @ registered_destroy_callbacks s cs f"
  by (simp add: registered_destroy_callbacks_def)

lemma registered_destroy_callbacks_same:
  assumes "nodes_by_id s' = nodes_by_id s"
      and "\<forall>x. static (objects s' x) = static (objects s x)"
  shows "registered_destroy_callbacks s' cs f = registered_destroy_callbacks s cs f"
  by (simp add: registered_destroy_callbacks_def same_static_resolution [OF assms])

lemma run_post_process_callback_of [simp]:
  "run_post_process_callback s (ContractDefinition_post_process_of C) =
     ContractDefinition_post_process s C"
  by (simp add: run_post_process_callback_def)

lemma run_post_process_callbacks:
  assumes "run_callbacks run_post_process_callback s (map ContractDefinition_post_process_of cs) = Inr s'"
  shows "nodes_by_id s' = nodes_by_id s \<and>
         post_process_queue s' = post_process_queue s \<and>
         (\<forall>x. static (objects s' x) = static (objects s x)) \<and>
         (\<forall>b. self__child_contracts (objects s' b) =
               self__child_contracts (objects s b) \<union> {C \<in> set cs. directly_inherits s C b}) \<and>
         (\<forall>f. destroy_queue s' f = destroy_queue s f @ registered_destroy_callbacks s cs f)"
  using assms
proof (induction cs arbitrary: s)
  case Nil
  then show ?case by (simp add: registered_destroy_callbacks_def)
next
  case (Cons C cs)
  from Cons.prems obtain s1 where
    s1: "ContractDefinition_post_process s C = Inr s1"
    and rest: "run_callbacks run_post_process_callback s1
                 (map ContractDefinition_post_process_of cs) = Inr s'"
    by (auto split: sum.splits)
  note a = post_process_step [OF s1]
  note same = same_static_resolution [OF a(1) a(3)]
  note b = Cons.IH [OF rest]
  have n: "nodes_by_id s' = nodes_by_id s" using a(1) b by simp
  have q: "post_process_queue s' = post_process_queue s" using a(2) b by simp
  have st: "\<forall>x. static (objects s' x) = static (objects s x)" using a(3) b by simp
  have ch: "\<forall>b. self__child_contracts (objects s' b) =
               self__child_contracts (objects s b) \<union> {X \<in> set (C # cs). directly_inherits s X b}"
  proof
    fix x
    have "self__child_contracts (objects s' x) =
        self__child_contracts (objects s1 x) \<union> {X \<in> set cs. directly_inherits s1 X x}"
      using b by blast
    also have "\<dots> = (self__child_contracts (objects s x) \<union> {X. X = C \<and> directly_inherits s C x}) \<union>
        {X \<in> set cs. directly_inherits s X x}"
      using a(4) by (simp add: same(1))
    also have "\<dots> = self__child_contracts (objects s x) \<union> {X \<in> set (C # cs). directly_inherits s X x}"
      by auto
    finally show "self__child_contracts (objects s' x) =
        self__child_contracts (objects s x) \<union> {X \<in> set (C # cs). directly_inherits s X x}" .
  qed
  have dq: "\<forall>f. destroy_queue s' f = destroy_queue s f @ registered_destroy_callbacks s (C # cs) f"
  proof
    fix f
    have "destroy_queue s' f = destroy_queue s1 f @ registered_destroy_callbacks s1 cs f"
      using b by blast
    also have "\<dots> = (destroy_queue s f @ registered_destroy_callbacks s [C] f) @
        registered_destroy_callbacks s cs f"
      using a(5) by (simp add: registered_destroy_callbacks_same [OF a(1) a(3)])
    finally show "destroy_queue s' f = destroy_queue s f @ registered_destroy_callbacks s (C # cs) f"
      by (simp add: registered_destroy_callbacks_Cons [of s C cs f])
  qed
  from n q st ch dq show ?case by blast
qed

lemma run_destroy_callback_of:
  "run_destroy_callback s (ContractDefinition_destroy_of C bs) = Inr s' \<Longrightarrow>
     s' = s\<lparr>objects := without_child (objects s) C (set bs)\<rparr>"
  by (auto simp: run_destroy_callback_def split: sum.splits dest: destroy_Inr_heap)

lemma run_destroy_callbacks:
  assumes "run_callbacks run_destroy_callback s
             (map (\<lambda>C. ContractDefinition_destroy_of C (g C)) ds) = Inr s'"
  shows "nodes_by_id s' = nodes_by_id s \<and> destroy_queue s' = destroy_queue s \<and>
         (\<forall>x. static (objects s' x) = static (objects s x)) \<and>
         (\<forall>b. self__child_contracts (objects s' b) =
               self__child_contracts (objects s b) - {C \<in> set ds. b \<in> set (g C)})"
  using assms
proof (induction ds arbitrary: s)
  case Nil
  then show ?case by simp
next
  case (Cons C ds)
  from Cons.prems obtain s1 where
    s1: "run_destroy_callback s (ContractDefinition_destroy_of C (g C)) = Inr s1"
    and rest: "run_callbacks run_destroy_callback s1
                 (map (\<lambda>C. ContractDefinition_destroy_of C (g C)) ds) = Inr s'"
    by (auto split: sum.splits)
  note a = run_destroy_callback_of [OF s1]
  note b = Cons.IH [OF rest]
  have 1: "nodes_by_id s' = nodes_by_id s" "destroy_queue s' = destroy_queue s"
    using b by (simp_all add: a)
  have 2: "\<forall>x. static (objects s' x) = static (objects s x)"
    using b by (simp add: a)
  have 3: "\<forall>b. self__child_contracts (objects s' b) =
               self__child_contracts (objects s b) - {X \<in> set (C # ds). b \<in> set (g X)}"
  proof
    fix x
    have "self__child_contracts (objects s' x) =
        self__child_contracts (objects s1 x) - {X \<in> set ds. x \<in> set (g X)}"
      using b by blast
    also have "self__child_contracts (objects s1 x) =
        self__child_contracts (objects s x) - {X. X = C \<and> x \<in> set (g C)}"
      by (auto simp: a without_child_def)
    finally show "self__child_contracts (objects s' x) =
        self__child_contracts (objects s x) - {X \<in> set (C # ds). x \<in> set (g X)}"
      by auto
  qed
  from 1 2 3 show ?case by blast
qed

lemma invalidate_step:
  assumes inv: "invalidated_state s cs F s2"
      and run: "invalidate s2 f = Inr s3"
  shows "invalidated_state s cs (insert f F) s3"
proof -
  from run obtain s2' where
    cb: "run_callbacks run_destroy_callback s2 (destroy_queue s2 f) = Inr s2'"
    and s3: "s3 = s2'\<lparr>destroy_queue := (destroy_queue s2')(f := []),
                      nodes_by_id := discard_bindings (nodes_by_id s2') f\<rparr>"
    by (auto simp: invalidate_def split: sum.splits)
  from inv have st2: "\<forall>x. static (objects s2 x) = static (objects s x)"
    and ch2: "\<forall>b. self__child_contracts (objects s2 b) =
          {C \<in> set cs. directly_inherits s C b \<and> self_file (objects s C) \<notin> F}"
    and dq2: "\<forall>f. destroy_queue s2 f = (if f \<in> F then [] else registered_destroy_callbacks s cs f)"
    by (simp_all add: invalidated_state_def)
  let ?ds = "if f \<in> F then [] else filter (\<lambda>C. self_file (objects s C) = f) cs"
  have q: "destroy_queue s2 f =
      map (\<lambda>C. ContractDefinition_destroy_of C (resolved_base_contracts s C)) ?ds"
    using dq2 by (simp add: registered_destroy_callbacks_def)
  note r = run_destroy_callbacks [OF cb [unfolded q]]
  have st3: "\<forall>x. static (objects s3 x) = static (objects s x)"
    using r st2 by (simp add: s3)
  have ch3: "\<forall>b. self__child_contracts (objects s3 b) =
          {C \<in> set cs. directly_inherits s C b \<and> self_file (objects s C) \<notin> insert f F}"
  proof
    fix b
    have "self__child_contracts (objects s3 b) =
        self__child_contracts (objects s2 b) - {C \<in> set ?ds. b \<in> set (resolved_base_contracts s C)}"
      using r by (simp add: s3)
    also have "\<dots> = {C \<in> set cs. directly_inherits s C b \<and> self_file (objects s C) \<notin> F} -
        {C \<in> set ?ds. directly_inherits s C b}"
      using ch2 by (simp add: set_resolved_base_contracts)
    also have "\<dots> = {C \<in> set cs. directly_inherits s C b \<and> self_file (objects s C) \<notin> insert f F}"
      by auto
    finally show "self__child_contracts (objects s3 b) =
        {C \<in> set cs. directly_inherits s C b \<and> self_file (objects s C) \<notin> insert f F}" .
  qed
  have dq3: "\<forall>g. destroy_queue s3 g =
      (if g \<in> insert f F then [] else registered_destroy_callbacks s cs g)"
    using r dq2 by (simp add: s3)
  from st3 ch3 dq3 show ?thesis by (simp add: invalidated_state_def)
qed

lemma invalidate_all_invariant:
  "invalidated_state s cs F s2 \<Longrightarrow> invalidate_all s2 fs = Inr s3 \<Longrightarrow>
     invalidated_state s cs (F \<union> set fs) s3"
proof (induction fs arbitrary: F s2)
  case Nil
  then show ?case by simp
next
  case (Cons f fs)
  from Cons.prems(2) obtain s2' where a: "invalidate s2 f = Inr s2'"
    and b: "invalidate_all s2' fs = Inr s3"
    by (auto split: sum.splits)
  from Cons.IH [OF invalidate_step [OF Cons.prems(1) a] b] show ?case by simp
qed

text \<open>
  The invariant on the runs that complete. Take a session as construction leaves it: the
  post-process callbacks of the contracts \<open>cs\<close> of the unit are queued, every \<open>child_contracts\<close> set is empty and no
  destroy callback is registered. When \<open>run_post_process\<close> has completed, a contract \<open>C\<close>
  is in \<open>B.child_contracts\<close> exactly when \<open>C\<close> is a contract of the unit that directly
  inherits from \<open>B\<close>. After any sequence of file invalidations that has completed, \<open>C\<close> is
  in \<open>B.child_contracts\<close> exactly when, in addition, the file of \<open>C\<close> is not among the
  invalidated ones: of the contracts that directly inherit from \<open>B\<close>, the set holds those
  that have not been destroyed.
\<close>

theorem inheritance_invariant:
  assumes queue: "post_process_queue s = map ContractDefinition_post_process_of cs"
      and fresh: "\<forall>b. self__child_contracts (objects s b) = {}"
      and none: "\<forall>f. destroy_queue s f = []"
      and pp: "run_post_process s = Inr s1"
  shows "(\<forall>B C. C \<in> self__child_contracts (objects s1 B) \<longleftrightarrow>
            C \<in> set cs \<and> directly_inherits s C B) \<and>
         (\<forall>fs s2. invalidate_all s1 fs = Inr s2 \<longrightarrow>
            (\<forall>B C. C \<in> self__child_contracts (objects s2 B) \<longleftrightarrow>
               C \<in> set cs \<and> directly_inherits s C B \<and> self_file (objects s C) \<notin> set fs))"
proof -
  from pp obtain s' where
    run: "run_callbacks run_post_process_callback s
            (map ContractDefinition_post_process_of cs) = Inr s'"
    and s1: "s1 = s'\<lparr>post_process_queue := []\<rparr>"
    by (auto simp: run_post_process_def queue split: sum.splits)
  note r = run_post_process_callbacks [OF run]
  have inv: "invalidated_state s cs {} s1"
    using r fresh none by (simp add: invalidated_state_def s1)
  have a: "\<forall>B C. C \<in> self__child_contracts (objects s1 B) \<longleftrightarrow>
            C \<in> set cs \<and> directly_inherits s C B"
    using inv by (simp add: invalidated_state_def)
  have b: "\<forall>fs s2. invalidate_all s1 fs = Inr s2 \<longrightarrow>
            (\<forall>B C. C \<in> self__child_contracts (objects s2 B) \<longleftrightarrow>
               C \<in> set cs \<and> directly_inherits s C B \<and> self_file (objects s C) \<notin> set fs)"
  proof (intro allI impI)
    fix fs s2 B C
    assume "invalidate_all s1 fs = Inr s2"
    from invalidate_all_invariant [OF inv this]
    show "C \<in> self__child_contracts (objects s2 B) \<longleftrightarrow>
               C \<in> set cs \<and> directly_inherits s C B \<and> self_file (objects s C) \<notin> set fs"
      by (simp add: invalidated_state_def)
  qed
  from a b show ?thesis by blast
qed

lemmas resolver_defs = run_post_process_def run_post_process_callback_def
  ContractDefinition_post_process_def referenced_declaration_def resolve_node_def
  register_destroy_callback_def invalidate_def run_destroy_callback_def set_remove_def
  set_add_def

lemma example_runs:
  "\<exists>s1 s2. run_post_process example_session = Inr s1 \<and>
           invalidate_all s1 [''E.sol''] = Inr s2"
  by (simp add: example_defs resolver_defs)

theorem inheritance_invariant_witness:
  "\<exists>s1 s2. run_post_process example_session = Inr s1 \<and>
           4 \<in> self__child_contracts (objects s1 1) \<and>
           invalidate_all s1 [''E.sol''] = Inr s2 \<and>
           4 \<notin> self__child_contracts (objects s2 1)"
proof -
  from example_runs obtain s1 s2 where
    r: "run_post_process example_session = Inr s1" "invalidate_all s1 [''E.sol''] = Inr s2"
    by blast
  have q: "post_process_queue example_session = map ContractDefinition_post_process_of [1, 2, 4]"
    by (simp add: example_defs)
  have f: "\<forall>b. self__child_contracts (objects example_session b) = {}"
    by (simp add: example_defs)
  have n: "\<forall>f. destroy_queue example_session f = []"
    by (simp add: example_defs)
  have i: "directly_inherits example_session 4 1"
    by (simp add: example_defs directly_inherits_def referenced_declaration_def resolve_node_def)
  have fl: "self_file (objects example_session 4) = ''E.sol''"
    by (simp add: example_defs)
  note t = inheritance_invariant [OF q f n r(1)]
  from t have "4 \<in> self__child_contracts (objects s1 1)" using i by simp
  moreover have "4 \<in> self__child_contracts (objects s2 1) \<longleftrightarrow>
      4 \<in> set [1, 2, 4 :: obj] \<and> directly_inherits example_session 4 1 \<and>
      self_file (objects example_session 4) \<notin> set [''E.sol'']"
    using t r(2) by blast
  then have "4 \<notin> self__child_contracts (objects s2 1)" by (simp add: fl)
  ultimately show ?thesis using r by blast
qed

section \<open>The frame of the callbacks\<close>

lemma post_process_loop_Inl:
  "post_process_loop s self specifiers acc = Inl (e, t) \<Longrightarrow>
     \<exists>B. B \<subseteq> set (resolved_contracts s (self_cu_hash (objects s self)) specifiers) \<and>
         t = s\<lparr>objects := with_child (objects s) self B\<rparr>"
proof (induction specifiers arbitrary: s acc)
  case Nil
  then show ?case by simp
next
  case (Cons x xs)
  let ?cu = "self_cu_hash (objects s self)"
  show ?case
  proof (cases "\<exists>b. referenced_declaration s ?cu x = Inr (ContractDefinitionRef b)")
    case False
    with Cons.prems have "t = s"
      by (auto split: sum.splits node_ref.splits)
    then have "{} \<subseteq> set (resolved_contracts s ?cu (x # xs)) \<and>
        t = s\<lparr>objects := with_child (objects s) self {}\<rparr>"
      by (simp add: with_child_empty)
    then show ?thesis by blast
  next
    case True
    then obtain b where b: "referenced_declaration s ?cu x = Inr (ContractDefinitionRef b)" by blast
    let ?s1 = "s\<lparr>objects := set_add (objects s) b self\<rparr>"
    from Cons.prems b have "post_process_loop ?s1 self xs (acc @ [b]) = Inl (e, t)" by simp
    from Cons.IH [OF this] obtain B where
      B: "B \<subseteq> set (resolved_contracts s ?cu xs)" "t = ?s1\<lparr>objects := with_child (objects ?s1) self B\<rparr>"
      by auto
    then have "insert b B \<subseteq> set (resolved_contracts s ?cu (x # xs)) \<and>
        t = s\<lparr>objects := with_child (objects s) self (insert b B)\<rparr>"
      using b by (auto simp: resolved_contracts_Cons with_child_set_add)
    then show ?thesis by blast
  qed
qed

lemma after_post_process:
  "\<exists>B q. B \<subseteq> set (resolved_base_contracts s C) \<and>
     after_callback s (Run_post_process C) =
       s\<lparr>objects := with_child (objects s) C B, destroy_queue := q\<rparr>"
proof (cases "ContractDefinition_post_process s C")
  case (Inl r)
  obtain e t where r: "r = (e, t)" by (cases r)
  with Inl have "post_process_loop s C (self__base_contracts (objects s C)) [] = Inl (e, t)"
    by (auto simp: ContractDefinition_post_process_def split: sum.splits)
  from post_process_loop_Inl [OF this] obtain B where
    "B \<subseteq> set (resolved_base_contracts s C)" "t = s\<lparr>objects := with_child (objects s) C B\<rparr>"
    by (auto simp: resolved_base_contracts_def)
  then have "B \<subseteq> set (resolved_base_contracts s C) \<and>
     after_callback s (Run_post_process C) =
       s\<lparr>objects := with_child (objects s) C B, destroy_queue := destroy_queue s\<rparr>"
    using Inl r by (simp add: after_callback_def)
  then show ?thesis by blast
next
  case (Inr t)
  from post_process_Inr(1) [OF Inr] Inr show ?thesis
    by (auto simp: after_callback_def)
qed

lemma after_destroy:
  "\<exists>B. B \<subseteq> set bs \<and>
     after_callback s (Run_destroy C bs) = s\<lparr>objects := without_child (objects s) C B\<rparr>"
proof (cases "ContractDefinition_destroy (objects s) C bs")
  case (Inl r)
  obtain e h where r: "r = (e, h)" by (cases r)
  with Inl obtain i where "ContractDefinition_destroy (objects s) C (take i bs) = Inr h"
    using destroy_Inl_iff [of "objects s" C bs e h] by blast
  then have "h = without_child (objects s) C (set (take i bs))" by (rule destroy_Inr_heap)
  then have "set (take i bs) \<subseteq> set bs \<and>
     after_callback s (Run_destroy C bs) =
       s\<lparr>objects := without_child (objects s) C (set (take i bs))\<rparr>"
    using Inl r by (simp add: after_callback_def run_destroy_callback_def set_take_subset)
  then show ?thesis by blast
next
  case (Inr h)
  then have "h = without_child (objects s) C (set bs)" by (rule destroy_Inr_heap)
  then have "set bs \<subseteq> set bs \<and>
     after_callback s (Run_destroy C bs) = s\<lparr>objects := without_child (objects s) C (set bs)\<rparr>"
    using Inr by (simp add: after_callback_def run_destroy_callback_def)
  then show ?thesis by blast
qed

lemma static_eq_update:
  "static c' = static c \<Longrightarrow> c' = c\<lparr>self__child_contracts := self__child_contracts c'\<rparr>"
proof -
  assume "static c' = static c"
  then have "(static c')\<lparr>self__child_contracts := self__child_contracts c'\<rparr> =
      (static c)\<lparr>self__child_contracts := self__child_contracts c'\<rparr>"
    by simp
  then show ?thesis by (simp add: static_def)
qed

lemma linearized_loop_same:
  "nodes_by_id s' = nodes_by_id s \<Longrightarrow> linearized_loop s' cu ids acc = linearized_loop s cu ids acc"
  by (induction ids arbitrary: acc)
     (auto simp: resolve_node_def split: option.splits sum.splits node_ref.splits)

lemma observed_same:
  assumes n: "nodes_by_id s' = nodes_by_id s"
      and st: "\<forall>x. static (objects s' x) = static (objects s x)"
  shows "observed kind_str source_of text_of splitlines values s' x =
         observed kind_str source_of text_of splitlines values s x"
proof -
  from st have "static (objects s' x) = static (objects s x)" by blast
  then obtain cs where c: "objects s' x = (objects s x)\<lparr>self__child_contracts := cs\<rparr>"
    using static_eq_update by blast
  have l: "linearized_base_contracts s' x = linearized_base_contracts s x"
    by (simp add: linearized_base_contracts_def c linearized_loop_same [OF n])
  show ?thesis
    unfolding observed_def Let_def l
    by (simp add: c parent_def canonical_name_def declaration_string_def abstract_def
        base_contracts_def kind_def fully_implemented_def documentation_of_def enums_def
        errors_def events_def functions_of_def modifiers_def structs_def
        user_defined_value_types_def using_for_directives_def declared_variables_def
        declarations_def parse_name_location_def ContractDefinition_iter_def
        cong: option.case_cong documentation.case_cong)
qed

lemma after_callback_step:
  shows "nodes_by_id (after_callback s r) = nodes_by_id s"
    and "\<forall>x. static (objects (after_callback s r) x) = static (objects s x)"
    and "\<forall>x C. C \<in> self__child_contracts (objects (after_callback s r) x) \<and>
               C \<notin> self__child_contracts (objects s x) \<longrightarrow>
               r = Run_post_process C \<and> directly_inherits s C x"
    and "\<forall>x C. C \<in> self__child_contracts (objects s x) \<and>
               C \<notin> self__child_contracts (objects (after_callback s r) x) \<longrightarrow>
               (\<exists>bs. r = Run_destroy C bs \<and> x \<in> set bs)"
proof -
  have "nodes_by_id (after_callback s r) = nodes_by_id s \<and>
    (\<forall>x. static (objects (after_callback s r) x) = static (objects s x)) \<and>
    (\<forall>x C. C \<in> self__child_contracts (objects (after_callback s r) x) \<and>
               C \<notin> self__child_contracts (objects s x) \<longrightarrow>
               r = Run_post_process C \<and> directly_inherits s C x) \<and>
    (\<forall>x C. C \<in> self__child_contracts (objects s x) \<and>
               C \<notin> self__child_contracts (objects (after_callback s r) x) \<longrightarrow>
               (\<exists>bs. r = Run_destroy C bs \<and> x \<in> set bs))"
  proof (cases r)
    case (Run_post_process D)
    from after_post_process [of s D] obtain B q where
      B: "B \<subseteq> set (resolved_base_contracts s D)"
         "after_callback s (Run_post_process D) =
            s\<lparr>objects := with_child (objects s) D B, destroy_queue := q\<rparr>"
      by blast
    have "x \<in> B \<Longrightarrow> directly_inherits s D x" for x
      using B(1) set_resolved_base_contracts [of x s D] by blast
    then show ?thesis
      unfolding Run_post_process B(2) by (auto simp: with_child_def static_def)
  next
    case (Run_destroy D bs)
    from after_destroy [of bs s D] obtain B where
      B: "B \<subseteq> set bs"
         "after_callback s (Run_destroy D bs) = s\<lparr>objects := without_child (objects s) D B\<rparr>"
      by blast
    then show ?thesis
      unfolding Run_destroy B(2) by (auto simp: without_child_def static_def)
  qed
  then show "nodes_by_id (after_callback s r) = nodes_by_id s"
    and "\<forall>x. static (objects (after_callback s r) x) = static (objects s x)"
    and "\<forall>x C. C \<in> self__child_contracts (objects (after_callback s r) x) \<and>
               C \<notin> self__child_contracts (objects s x) \<longrightarrow>
               r = Run_post_process C \<and> directly_inherits s C x"
    and "\<forall>x C. C \<in> self__child_contracts (objects s x) \<and>
               C \<notin> self__child_contracts (objects (after_callback s r) x) \<longrightarrow>
               (\<exists>bs. r = Run_destroy C bs \<and> x \<in> set bs)"
    by blast+
qed

text \<open>
  Run any sequence of post-process and destroy callbacks, each one returning or raising.
  In the session they leave, every field of every contract other than
  \<open>__child_contracts\<close> is as before, and so are the bindings of the resolver, hence
  every property other than \<open>child_contracts\<close>, the locator and the iteration return
  what they returned before. A contract that has entered a \<open>child_contracts\<close> set was
  put there by its own post-process callback, into the set of a contract it directly
  inherits from; a contract that has left a set was taken out by its own destroy
  callback, from the set of a contract recorded in that callback.
\<close>

lemma callback_runs_frame:
  "(\<forall>x. static (objects (foldl after_callback s runs) x) = static (objects s x)) \<and>
   nodes_by_id (foldl after_callback s runs) = nodes_by_id s \<and>
   (\<forall>x. observed kind_str source_of text_of splitlines enum_values (foldl after_callback s runs) x =
        observed kind_str source_of text_of splitlines enum_values s x) \<and>
   (\<forall>x C. C \<in> child_contracts (objects (foldl after_callback s runs) x) \<and>
          C \<notin> child_contracts (objects s x) \<longrightarrow>
          Run_post_process C \<in> set runs \<and> directly_inherits s C x) \<and>
   (\<forall>x C. C \<in> child_contracts (objects s x) \<and>
          C \<notin> child_contracts (objects (foldl after_callback s runs) x) \<longrightarrow>
          (\<exists>bs. Run_destroy C bs \<in> set runs \<and> x \<in> set bs))"
proof (induction runs arbitrary: s)
  case Nil
  then show ?case by simp
next
  case (Cons r runs)
  let ?s1 = "after_callback s r"
  let ?s2 = "foldl after_callback ?s1 runs"
  note a = after_callback_step [of s r]
  note b = Cons.IH [of ?s1]
  have st: "\<forall>x. static (objects ?s2 x) = static (objects s x)"
    using a(2) b by simp
  have n: "nodes_by_id ?s2 = nodes_by_id s"
    using a(1) b by simp
  have ob: "\<forall>x. observed kind_str source_of text_of splitlines enum_values ?s2 x =
        observed kind_str source_of text_of splitlines enum_values s x"
    using observed_same [OF n st] by blast
  have add: "\<forall>x C. C \<in> child_contracts (objects ?s2 x) \<and> C \<notin> child_contracts (objects s x) \<longrightarrow>
          Run_post_process C \<in> set (r # runs) \<and> directly_inherits s C x"
  proof (intro allI impI)
    fix x C
    assume h: "C \<in> child_contracts (objects ?s2 x) \<and> C \<notin> child_contracts (objects s x)"
    show "Run_post_process C \<in> set (r # runs) \<and> directly_inherits s C x"
    proof (cases "C \<in> child_contracts (objects ?s1 x)")
      case True
      with h a(3) have "r = Run_post_process C \<and> directly_inherits s C x"
        unfolding child_contracts_def by blast
      then show ?thesis by simp
    next
      case False
      with h b have "Run_post_process C \<in> set runs \<and> directly_inherits ?s1 C x" by blast
      then show ?thesis
        by (simp add: same_static_resolution(1) [OF a(1) a(2)])
    qed
  qed
  have del: "\<forall>x C. C \<in> child_contracts (objects s x) \<and> C \<notin> child_contracts (objects ?s2 x) \<longrightarrow>
          (\<exists>bs. Run_destroy C bs \<in> set (r # runs) \<and> x \<in> set bs)"
  proof (intro allI impI)
    fix x C
    assume h: "C \<in> child_contracts (objects s x) \<and> C \<notin> child_contracts (objects ?s2 x)"
    show "\<exists>bs. Run_destroy C bs \<in> set (r # runs) \<and> x \<in> set bs"
    proof (cases "C \<in> child_contracts (objects ?s1 x)")
      case True
      with h b obtain bs where "Run_destroy C bs \<in> set runs \<and> x \<in> set bs" by blast
      then have "Run_destroy C bs \<in> set (r # runs) \<and> x \<in> set bs" by simp
      then show ?thesis by (rule exI)
    next
      case False
      with h a(4) obtain bs where "r = Run_destroy C bs \<and> x \<in> set bs"
        unfolding child_contracts_def by blast
      then have "Run_destroy C bs \<in> set (r # runs) \<and> x \<in> set bs" by simp
      then show ?thesis by (rule exI)
    qed
  qed
  from st n ob add del show ?case by simp
qed

section \<open>Completion of the resolver runs\<close>

lemma run_destroy_callbacks_succeed:
  assumes "distinct ds" and "\<forall>C \<in> set ds. distinct (g C)"
      and "\<forall>C \<in> set ds. \<forall>b \<in> set (g C). C \<in> self__child_contracts (objects s b)"
  shows "\<exists>s'. run_callbacks run_destroy_callback s
                (map (\<lambda>C. ContractDefinition_destroy_of C (g C)) ds) = Inr s'"
  using assms
proof (induction ds arbitrary: s)
  case Nil
  then show ?case by simp
next
  case (Cons C ds)
  from Cons.prems have "distinct (g C)" "\<forall>b \<in> set (g C). C \<in> self__child_contracts (objects s b)"
    by simp_all
  then obtain h where h: "ContractDefinition_destroy (objects s) C (g C) = Inr h"
    using destroy_Inr_iff [of "objects s" C "g C"] by blast
  then have hh: "h = without_child (objects s) C (set (g C))" by (rule destroy_Inr_heap)
  let ?s1 = "s\<lparr>objects := h\<rparr>"
  have step: "run_destroy_callback s (ContractDefinition_destroy_of C (g C)) = Inr ?s1"
    using h by (simp add: run_destroy_callback_def)
  have "\<forall>D \<in> set ds. \<forall>b \<in> set (g D). D \<in> self__child_contracts (objects ?s1 b)"
  proof (intro ballI)
    fix D b
    assume D: "D \<in> set ds" "b \<in> set (g D)"
    with Cons.prems(1) have "D \<noteq> C" by auto
    moreover from D Cons.prems(3) have "D \<in> self__child_contracts (objects s b)" by simp
    ultimately show "D \<in> self__child_contracts (objects ?s1 b)"
      by (simp add: hh without_child_def)
  qed
  moreover from Cons.prems have "distinct ds" "\<forall>C \<in> set ds. distinct (g C)" by simp_all
  ultimately obtain s' where
    "run_callbacks run_destroy_callback ?s1 (map (\<lambda>C. ContractDefinition_destroy_of C (g C)) ds) = Inr s'"
    using Cons.IH [of ?s1] by blast
  with step show ?case by simp
qed

lemma invalidate_succeeds:
  assumes inv: "invalidated_state s cs F s2"
      and d: "distinct cs" "\<forall>C \<in> set cs. distinct (resolved_base_contracts s C)"
  shows "\<exists>s3. invalidate s2 f = Inr s3"
proof -
  from inv have ch2: "\<forall>b. self__child_contracts (objects s2 b) =
          {C \<in> set cs. directly_inherits s C b \<and> self_file (objects s C) \<notin> F}"
    and dq2: "\<forall>f. destroy_queue s2 f = (if f \<in> F then [] else registered_destroy_callbacks s cs f)"
    by (simp_all add: invalidated_state_def)
  let ?ds = "if f \<in> F then [] else filter (\<lambda>C. self_file (objects s C) = f) cs"
  have q: "destroy_queue s2 f =
      map (\<lambda>C. ContractDefinition_destroy_of C (resolved_base_contracts s C)) ?ds"
    using dq2 by (simp add: registered_destroy_callbacks_def)
  have 1: "distinct ?ds" using d(1) by simp
  have 2: "\<forall>C \<in> set ?ds. distinct (resolved_base_contracts s C)" using d(2) by simp
  have 3: "\<forall>C \<in> set ?ds. \<forall>b \<in> set (resolved_base_contracts s C).
      C \<in> self__child_contracts (objects s2 b)"
    using ch2 by (auto simp: set_resolved_base_contracts)
  from run_destroy_callbacks_succeed [OF 1 2 3] obtain s' where
    "run_callbacks run_destroy_callback s2 (destroy_queue s2 f) = Inr s'"
    unfolding q by blast
  then show ?thesis by (simp add: invalidate_def)
qed

text \<open>
  When no contract is queued twice and no contract names a base twice, every sequence
  of invalidations completes.
\<close>

lemma invalidate_all_succeeds:
  assumes "invalidated_state s cs F s2"
      and "distinct cs" "\<forall>C \<in> set cs. distinct (resolved_base_contracts s C)"
  shows "\<exists>s3. invalidate_all s2 fs = Inr s3"
  using assms(1)
proof (induction fs arbitrary: F s2)
  case Nil
  then show ?case by simp
next
  case (Cons f fs)
  from invalidate_succeeds [OF Cons.prems assms(2,3)] obtain s2' where
    a: "invalidate s2 f = Inr s2'" by blast
  from Cons.IH [OF invalidate_step [OF Cons.prems a]] obtain s3 where
    "invalidate_all s2' fs = Inr s3" by blast
  with a show ?case by simp
qed

lemma run_post_process_state:
  assumes "post_process_queue s = map ContractDefinition_post_process_of cs"
      and "\<forall>b. self__child_contracts (objects s b) = {}"
      and "\<forall>f. destroy_queue s f = []"
      and "run_post_process s = Inr s1"
  shows "invalidated_state s cs {} s1"
proof -
  from assms(4) obtain s' where
    run: "run_callbacks run_post_process_callback s
            (map ContractDefinition_post_process_of cs) = Inr s'"
    and s1: "s1 = s'\<lparr>post_process_queue := []\<rparr>"
    by (auto simp: run_post_process_def assms(1) split: sum.splits)
  from run_post_process_callbacks [OF run] assms(2,3) show ?thesis
    by (simp add: invalidated_state_def s1)
qed

text \<open>
  From a freshly constructed unit in which no contract is queued twice and no contract
  names a base twice, every sequence of invalidations after \<open>run_post_process\<close>
  completes.
\<close>

lemma invalidations_complete:
  assumes "post_process_queue s = map ContractDefinition_post_process_of cs"
      and "\<forall>b. self__child_contracts (objects s b) = {}"
      and "\<forall>f. destroy_queue s f = []"
      and "run_post_process s = Inr s1"
      and "distinct cs" "\<forall>C \<in> set cs. distinct (resolved_base_contracts s C)"
  shows "\<exists>s2. invalidate_all s1 fs = Inr s2"
  using invalidate_all_succeeds [OF run_post_process_state [OF assms(1-4)] assms(5,6)] .

text \<open>
  \<open>run_post_process\<close> completes when every inheritance specifier of every queued contract
  resolves to a contract.
\<close>

lemma post_process_succeeds:
  assumes "\<forall>x \<in> set (self__base_contracts (objects s C)). \<exists>b.
             referenced_declaration s (self_cu_hash (objects s C)) x = Inr (ContractDefinitionRef b)"
  shows "\<exists>s'. ContractDefinition_post_process s C = Inr s'"
proof -
  from assms obtain r where
    "post_process_loop s C (self__base_contracts (objects s C)) [] = Inr r"
    using post_process_loop_Inr_iff [of s C "self__base_contracts (objects s C)" "[]"] by blast
  then show ?thesis
    by (cases r) (simp add: ContractDefinition_post_process_def)
qed

lemma run_post_process_callbacks_succeed:
  assumes "\<forall>C \<in> set cs. \<forall>x \<in> set (self__base_contracts (objects s C)). \<exists>b.
             referenced_declaration s (self_cu_hash (objects s C)) x = Inr (ContractDefinitionRef b)"
  shows "\<exists>s'. run_callbacks run_post_process_callback s
                (map ContractDefinition_post_process_of cs) = Inr s'"
  using assms
proof (induction cs arbitrary: s)
  case Nil
  then show ?case by simp
next
  case (Cons C cs)
  from Cons.prems obtain s1 where s1: "ContractDefinition_post_process s C = Inr s1"
    using post_process_succeeds [of s C] by auto
  note a = post_process_step [OF s1]
  have rd: "referenced_declaration s1 cu x = referenced_declaration s cu x" for cu x
    by (simp add: referenced_declaration_def resolve_node_def a(1))
  have "\<forall>D \<in> set cs. \<forall>x \<in> set (self__base_contracts (objects s1 D)). \<exists>b.
      referenced_declaration s1 (self_cu_hash (objects s1 D)) x = Inr (ContractDefinitionRef b)"
  proof (intro ballI)
    fix D x
    assume D: "D \<in> set cs" "x \<in> set (self__base_contracts (objects s1 D))"
    note f = static_fields [OF a(3) [rule_format, of D]]
    from D Cons.prems show "\<exists>b. referenced_declaration s1 (self_cu_hash (objects s1 D)) x =
        Inr (ContractDefinitionRef b)"
      by (simp add: rd f)
  qed
  from Cons.IH [OF this] obtain s' where
    "run_callbacks run_post_process_callback s1 (map ContractDefinition_post_process_of cs) = Inr s'"
    by blast
  with s1 show ?case by simp
qed

lemma run_post_process_succeeds:
  assumes "post_process_queue s = map ContractDefinition_post_process_of cs"
      and "\<forall>C \<in> set cs. \<forall>x \<in> set (self__base_contracts (objects s C)). \<exists>b.
             referenced_declaration s (self_cu_hash (objects s C)) x = Inr (ContractDefinitionRef b)"
  shows "\<exists>s1. run_post_process s = Inr s1"
  using run_post_process_callbacks_succeed [OF assms(2)]
  by (auto simp: run_post_process_def assms(1))

section \<open>Inputs on which the invariants fail\<close>

text \<open>
  Claim C6, as stated, at a contract whose stored linearization is \<open>[20, 40]\<close>: both ids
  resolve to contracts (\<open>D\<close> and \<open>E\<close>), and the property of \<open>E\<close> returns \<open>(D, E)\<close>, whose
  first element is not \<open>E\<close>.
\<close>

theorem linearized_base_contracts_first_not_self:
  "self__linearized_base_contracts (objects reordered_session 4) = [20, 40] \<and>
   resolve_node reordered_session 20 (self_cu_hash (objects reordered_session 4)) =
     Inr (ContractDefinitionRef 2) \<and>
   resolve_node reordered_session 40 (self_cu_hash (objects reordered_session 4)) =
     Inr (ContractDefinitionRef 4) \<and>
   linearized_base_contracts reordered_session 4 = Inr [2, 4]"
  by (simp add: reordered_session_def example_defs linearized_base_contracts_def resolve_node_def)

text \<open>
  Claim C1, at the unit whose contract \<open>C\<close> (file \<open>C.sol\<close>) has specifiers resolving to
  \<open>B\<close>, \<open>B\<close> and \<open>D\<close>: \<open>C\<close> directly inherits from \<open>B\<close> and from \<open>D\<close>, \<open>run_post_process\<close>
  completes, and the first invalidation of \<open>C.sol\<close> raises \<open>KeyError\<close>. It leaves \<open>C\<close> out of
  the set of \<open>B\<close> and in the set of \<open>D\<close>, with the id of \<open>C\<close> still bound: whether \<open>C\<close>
  counts as destroyed or not, one of the two sets contradicts the invariant.
\<close>

theorem invalidation_with_duplicate_base_breaks_invariant:
  "directly_inherits duplicate_session 3 1 \<and> directly_inherits duplicate_session 3 2 \<and>
   (case run_post_process duplicate_session of
      Inl r \<Rightarrow> False
    | Inr s1 \<Rightarrow>
        3 \<in> self__child_contracts (objects s1 1) \<and> 3 \<in> self__child_contracts (objects s1 2) \<and>
        (case invalidate_all s1 [''C.sol''] of
           Inl (e, s2) \<Rightarrow>
             e = KeyError \<and>
             3 \<notin> self__child_contracts (objects s2 1) \<and>
             3 \<in> self__child_contracts (objects s2 2) \<and>
             nodes_by_id s2 (''cu'', 30) = Some (''C.sol'', ContractDefinitionRef 3)
         | Inr s2 \<Rightarrow> False))"
  by (simp add: example_defs resolver_defs directly_inherits_def)

section \<open>The property accessors\<close>

lemma elements_share_nothing: "list_all shares_nothing (elements c a)"
  by (cases a) (simp_all add: elements_def list_all_iff)

lemma mutate_not_container:
  "(\<And>x a. v \<noteq> PyContainer x a) \<Longrightarrow> mutate s v m = Inl AttributeError"
  by (cases v) (auto simp: mutate_def)

lemma read_property_session:
  "snd (read_property kind_str source_of text_of splitlines enum_values t x p) = t"
  by (cases p) (simp_all add: read_property_def Let_def split: sum.splits)

lemma read_property_value:
  assumes "fst (read_property kind_str source_of text_of splitlines enum_values t x p) = Inr v"
  shows "shares_nothing v" and "\<And>y a. v \<noteq> PyContainer y a"
  using assms elements_share_nothing [of "objects t x"]
  by (cases p; auto simp: read_property_def Let_def py_tuple_def py_frozenset_def list_all_iff
        split: sum.splits option.splits documentation.splits)+

lemma read_property_snapshot:
  assumes "attribute_of p = Some a"
  shows "p \<noteq> P_linearized_base_contracts \<Longrightarrow>
         fst (read_property kind_str source_of text_of splitlines enum_values t x p) =
           Inr (if a = A_child_contracts then PyFrozenSet (self__child_contracts (objects t x))
                else PyTuple (elements (objects t x) a))"
    and "fst (read_property kind_str source_of text_of splitlines enum_values t x p) = Inr v \<Longrightarrow>
         snapshot v"
  using assms
  by (cases p; auto simp: read_property_def Let_def py_tuple_def py_frozenset_def
        split: sum.splits)+

text \<open>
  The contrast: were \<open>enums\<close> to return the list it holds (\<open>return self.__enums\<close>), the value
  handed out would be the list object, and a caller clearing it would empty the field of
  the contract.
\<close>

lemma bare_return_exposes_list:
  assumes "self__enums (objects s x) \<noteq> []"
  shows "\<not> shares_nothing (PyContainer x A_enums)"
    and "\<exists>s'. mutate s (PyContainer x A_enums) List_clear = Inr s' \<and>
              self__enums (objects s' x) = [] \<and> objects s' x \<noteq> objects s x"
proof -
  show "\<not> shares_nothing (PyContainer x A_enums)" by simp
  let ?s' = "s\<lparr>objects := (objects s)(x := (objects s x)\<lparr>self__enums := []\<rparr>)\<rparr>"
  have m: "mutate s (PyContainer x A_enums) List_clear = Inr ?s'"
    by (simp add: mutate_def update_list_def Let_def)
  have e: "self__enums (objects ?s' x) = []" by simp
  with assms have "self__enums (objects ?s' x) \<noteq> self__enums (objects s x)" by simp
  then have "objects ?s' x \<noteq> objects s x" by metis
  with m e show "\<exists>s'. mutate s (PyContainer x A_enums) List_clear = Inr s' \<and>
              self__enums (objects s' x) = [] \<and> objects s' x \<noteq> objects s x"
    by blast
qed

text \<open>
  Claim C4. Run any sequence of post-process and destroy callbacks from session \<open>s\<close>, each
  one returning or raising. In the session they leave, every field of every contract
  other than \<open>__child_contracts\<close> is as before, and so are the bindings of the resolver,
  hence every property other than \<open>child_contracts\<close>, the locator and the iteration
  return what they returned before. A contract that has entered a \<open>child_contracts\<close> set
  was put there by its own post-process callback, into the set of a contract it directly
  inherits from; a contract that has left a set was taken out by its own destroy
  callback, from the set of a contract recorded in that callback. Reading any property of
  any contract in any session \<open>t\<close> leaves the session as it is. The value a read returns
  holds no list or set object of a contract, and each in-place method called on it raises
  \<open>AttributeError\<close> and so changes nothing. The properties of the attributes that hold a
  list or a set return a tuple or a frozenset: \<open>child_contracts\<close> the frozenset of the
  elements of the set, the others but \<open>linearized_base_contracts\<close> the tuple of the
  elements of the list.
\<close>

theorem only_child_contracts_changes:
  "(\<forall>x. static (objects (foldl after_callback s runs) x) = static (objects s x)) \<and>
   nodes_by_id (foldl after_callback s runs) = nodes_by_id s \<and>
   (\<forall>x. observed kind_str source_of text_of splitlines enum_values (foldl after_callback s runs) x =
        observed kind_str source_of text_of splitlines enum_values s x) \<and>
   (\<forall>x C. C \<in> child_contracts (objects (foldl after_callback s runs) x) \<and>
          C \<notin> child_contracts (objects s x) \<longrightarrow>
          Run_post_process C \<in> set runs \<and> directly_inherits s C x) \<and>
   (\<forall>x C. C \<in> child_contracts (objects s x) \<and>
          C \<notin> child_contracts (objects (foldl after_callback s runs) x) \<longrightarrow>
          (\<exists>bs. Run_destroy C bs \<in> set runs \<and> x \<in> set bs)) \<and>
   (\<forall>x p. snd (read_property kind_str source_of text_of splitlines enum_values t x p) = t) \<and>
   (\<forall>x p v. fst (read_property kind_str source_of text_of splitlines enum_values t x p) = Inr v \<longrightarrow>
        shares_nothing v \<and> (\<forall>m. mutate t v m = Inl AttributeError)) \<and>
   (\<forall>x p a v. attribute_of p = Some a \<and>
        fst (read_property kind_str source_of text_of splitlines enum_values t x p) = Inr v \<longrightarrow>
        snapshot v) \<and>
   (\<forall>x p a. attribute_of p = Some a \<and> p \<noteq> P_linearized_base_contracts \<longrightarrow>
        fst (read_property kind_str source_of text_of splitlines enum_values t x p) =
          Inr (if a = A_child_contracts then PyFrozenSet (self__child_contracts (objects t x))
               else PyTuple (elements (objects t x) a)))"
proof -
  note f = callback_runs_frame [of s runs kind_str source_of text_of splitlines enum_values]
  have r1: "\<forall>x p. snd (read_property kind_str source_of text_of splitlines enum_values t x p) = t"
    by (simp add: read_property_session)
  have r2: "\<forall>x p v.
      fst (read_property kind_str source_of text_of splitlines enum_values t x p) = Inr v \<longrightarrow>
      shares_nothing v \<and> (\<forall>m. mutate t v m = Inl AttributeError)"
  proof (intro allI impI conjI)
    fix x p v m
    assume h: "fst (read_property kind_str source_of text_of splitlines enum_values t x p) = Inr v"
    show "shares_nothing v" by (rule read_property_value(1) [OF h])
    show "mutate t v m = Inl AttributeError"
      by (rule mutate_not_container) (rule read_property_value(2) [OF h])
  qed
  have r3: "\<forall>x p a v. attribute_of p = Some a \<and>
        fst (read_property kind_str source_of text_of splitlines enum_values t x p) = Inr v \<longrightarrow>
        snapshot v"
    using read_property_snapshot(2) by blast
  have r4: "\<forall>x p a. attribute_of p = Some a \<and> p \<noteq> P_linearized_base_contracts \<longrightarrow>
        fst (read_property kind_str source_of text_of splitlines enum_values t x p) =
          Inr (if a = A_child_contracts then PyFrozenSet (self__child_contracts (objects t x))
               else PyTuple (elements (objects t x) a))"
    using read_property_snapshot(1) by blast
  from f r1 r2 r3 r4 show ?thesis by (intro conjI) blast+
qed

theorem only_child_contracts_changes_witness:
  "4 \<in> child_contracts (objects (foldl after_callback example_session [Run_post_process 4]) 1) \<and>
   4 \<notin> child_contracts (objects example_session 1) \<and>
   directly_inherits example_session 4 1 \<and>
   static (objects (foldl after_callback example_session [Run_post_process 4]) 1) =
     static (objects example_session 1) \<and>
   read_property (\<lambda>k. []) (\<lambda>b. []) (\<lambda>d. []) (\<lambda>l. []) (\<lambda>n. [])
     (foldl after_callback example_session [Run_post_process 4]) 1 P_child_contracts =
     (Inr (PyFrozenSet {4}), foldl after_callback example_session [Run_post_process 4]) \<and>
   snapshot (PyFrozenSet {4}) \<and> shares_nothing (PyFrozenSet {4}) \<and>
   mutate (foldl after_callback example_session [Run_post_process 4]) (PyFrozenSet {4})
     (Set_add 7) = Inl AttributeError \<and>
   4 \<notin> child_contracts (objects (foldl after_callback
       (foldl after_callback example_session [Run_post_process 4]) [Run_destroy 4 [1, 2]]) 1) \<and>
   (\<exists>bs. Run_destroy 4 bs \<in> set [Run_destroy 4 [1, 2]] \<and> 1 \<in> set bs)"
proof -
  let ?s1 = "foldl after_callback example_session [Run_post_process 4]"
  let ?s2 = "foldl after_callback ?s1 [Run_destroy 4 [1, 2]]"
  have c: "self__child_contracts (objects ?s1 1) = {4}"
    by (simp add: after_callback_def example_defs resolver_defs)
  have 1: "4 \<in> child_contracts (objects ?s1 1)"
    using c by (simp add: child_contracts_def)
  have 2: "4 \<notin> child_contracts (objects example_session 1)"
    by (simp add: child_contracts_def example_defs)
  have 3: "4 \<notin> child_contracts (objects ?s2 1)"
    by (simp add: after_callback_def child_contracts_def example_defs resolver_defs)
  have 4: "attribute_of P_child_contracts = Some A_child_contracts \<and>
           P_child_contracts \<noteq> P_linearized_base_contracts"
    by simp
  note t = only_child_contracts_changes [where s = example_session and runs = "[Run_post_process 4]"
      and t = ?s1
      and kind_str = "\<lambda>k. []" and source_of = "\<lambda>b. []" and text_of = "\<lambda>d. []"
      and splitlines = "\<lambda>l. []" and enum_values = "\<lambda>n. []"]
  note u = only_child_contracts_changes [where s = ?s1 and runs = "[Run_destroy 4 [1, 2]]"
      and t = ?s1
      and kind_str = "\<lambda>k. []" and source_of = "\<lambda>b. []" and text_of = "\<lambda>d. []"
      and splitlines = "\<lambda>l. []" and enum_values = "\<lambda>n. []"]
  from t 1 2 have a: "directly_inherits example_session 4 1" by blast
  from t have b: "static (objects ?s1 1) = static (objects example_session 1)" by blast
  from t 4 have "fst (read_property (\<lambda>k. []) (\<lambda>b. []) (\<lambda>d. []) (\<lambda>l. []) (\<lambda>n. []) ?s1 1
      P_child_contracts) =
      Inr (if A_child_contracts = A_child_contracts
           then PyFrozenSet (self__child_contracts (objects ?s1 1))
           else PyTuple (elements (objects ?s1 1) A_child_contracts))"
    by blast
  then have d: "fst (read_property (\<lambda>k. []) (\<lambda>b. []) (\<lambda>d. []) (\<lambda>l. []) (\<lambda>n. []) ?s1 1
      P_child_contracts) = Inr (PyFrozenSet {4})"
    unfolding c by simp
  from t have e: "snd (read_property (\<lambda>k. []) (\<lambda>b. []) (\<lambda>d. []) (\<lambda>l. []) (\<lambda>n. []) ?s1 1
      P_child_contracts) = ?s1"
    by blast
  from d e have f: "read_property (\<lambda>k. []) (\<lambda>b. []) (\<lambda>d. []) (\<lambda>l. []) (\<lambda>n. []) ?s1 1
      P_child_contracts = (Inr (PyFrozenSet {4}), ?s1)"
    by (simp add: prod_eq_iff)
  from t d have g: "shares_nothing (PyFrozenSet {4}) \<and>
      (\<forall>m. mutate ?s1 (PyFrozenSet {4}) m = Inl AttributeError)"
    by blast
  from t 4 d have h: "snapshot (PyFrozenSet {4})" by blast
  from u 1 3 have i: "\<exists>bs. Run_destroy 4 bs \<in> set [Run_destroy 4 [1, 2]] \<and> 1 \<in> set bs"
    by blast
  from 1 2 a b f h g 3 i show ?thesis by blast
qed

end
